theory Spec2Isabelle
  imports Complex_Main "HOL-Library.AList" "HOL-Library.Log_Nat"
begin

section \<open>Behaviour analytics of the admin API (src/api/admin.js)\<close>

text \<open>
  The development embeds the aggregation functions of \<^verbatim>\<open>src/api/admin.js\<close>:
  \<^verbatim>\<open>daysAgo\<close>, \<^verbatim>\<open>startOfDay\<close>, \<^verbatim>\<open>distinctUsers\<close>, \<^verbatim>\<open>calculateDailyTrend\<close>,
  \<^verbatim>\<open>calculateUserEngagement\<close>, \<^verbatim>\<open>calculateSessionFrequency\<close>,
  \<^verbatim>\<open>calculateSessionDepth\<close> and the body of \<^verbatim>\<open>getBehaviorMetrics\<close> after the rows
  have been fetched and filtered by role.

  Conventions of the embedding.
  \<^item> A point in time is its number of milliseconds since the epoch (an \<open>int\<close>).
  \<^item> A calendar date string \<^verbatim>\<open>YYYY-MM-DD\<close>, as produced by
    \<^verbatim>\<open>toISOString().slice(0,10)\<close>, is represented by its day number, the number of
    whole UTC days since the epoch. For four-digit years the strings and the day numbers
    correspond one to one, the lexicographic order of the strings is the order of the
    day numbers, and \<^verbatim>\<open>new Date("YYYY-MM-DD")\<close> is UTC midnight of that day.
  \<^item> Local time is UTC plus a fixed offset \<open>tz\<close> in milliseconds, a parameter of every
    function that reads local time.
  \<^item> Durations are whole seconds. A number is the rational it denotes. The quotient
    that \<^verbatim>\<open>toFixed\<close> prints (line 701) is the double that the division returns,
    \<open>jsDivide\<close> below. The other quotients, the averages that are compared with 300 and
    600 or passed to \<^verbatim>\<open>Math.round\<close>, are taken exactly.
  \<^item> A JavaScript \<^verbatim>\<open>Map\<close> that the code iterates is an association list in insertion
    order, a \<^verbatim>\<open>Set\<close> is a duplicate-free list in insertion order, an object with a
    fixed set of keys is an association list from a datatype of its keys.
  \<^item> The only exception the embedded code can raise on these inputs is the
    \<^verbatim>\<open>RangeError\<close> of \<^verbatim>\<open>toISOString\<close> on an invalid date.
\<close>

subsection \<open>Values and records\<close>

datatype error = RangeError

text \<open>
  A timestamp field as the code may find it: \<^verbatim>\<open>null\<close>, \<^verbatim>\<open>undefined\<close> (or the empty
  string), a non-empty string that does not parse as a date, or a string that parses
  to the given time value.
\<close>

datatype jstime = TNull | TUndefined | TInvalid | TValid int

text \<open>
  A row of \<^verbatim>\<open>learning_sessions\<close>. \<open>user_id = None\<close> is a missing identifier;
  \<open>duration = None\<close> is a duration that is missing or for which \<^verbatim>\<open>Number\<close> gives
  \<^verbatim>\<open>NaN\<close>.
\<close>

record session =
  user_id :: "string option"
  duration :: "int option"
  start_time :: jstime

text \<open>A row of one of the feature tables (homework, exams, notes, flashcards, pomodoro).\<close>

record item =
  item_id :: nat
  created_at :: jstime

datatype jsvalue = JNum rat | JStr string

datatype tier = High | Medium | Low | Inactive

datatype freq_label = F1_2 | F3_5 | F6_10 | F11_20 | F20plus

datatype duration_label = D0_5 | D5_15 | D15_30 | D30_60 | D60plus

datatype tod_label = Night | Morning | Afternoon | Evening

datatype intensity_label = ShortFrequent | LongInfrequent | Balanced | Shallow

datatype feature = Homework | Exams | Notes | Flashcards | Pomodoro

record depth_analysis =
  durationDistribution :: "(duration_label \<times> nat) list"
  timeOfDayDistribution :: "(tod_label \<times> nat) list"
  sessionIntensity :: "(intensity_label \<times> nat) list"
  avgSessionsPerDay :: jsvalue
  maxConsecutiveDays :: nat

record session_stats =
  stat_avg :: int
  stat_min :: int
  stat_max :: int
  stat_total :: int

record feature_usage =
  usage_labels :: "feature list"
  usage_values :: "nat list"

record metrics =
  dau :: nat
  wau :: nat
  mau :: nat
  avgSessionMin :: int
  sessionStats :: session_stats
  retentionD1 :: nat
  active30 :: "nat list"
  sessions30 :: "nat list"
  avgDuration30 :: "int list"
  featureUsage :: feature_usage
  featureTrends :: "(feature \<times> nat list) list"
  userEngagement :: "(tier \<times> nat) list"
  sessionFrequency :: "(freq_label \<times> nat) list"
  sessionDepth :: depth_analysis

subsection \<open>JavaScript primitives used by the code\<close>

text \<open>
  \<^verbatim>\<open>!session.user_id\<close> is true for a missing identifier and for the empty string;
  the loops that skip such sessions test both. \<^verbatim>\<open>!session.start_time\<close> is true for
  \<^verbatim>\<open>null\<close>, \<^verbatim>\<open>undefined\<close> and the empty string.
\<close>

fun truthy_time :: "jstime \<Rightarrow> bool" where
  "truthy_time TNull = False"
| "truthy_time TUndefined = False"
| "truthy_time TInvalid = True"
| "truthy_time (TValid t) = True"

text \<open>\<^verbatim>\<open>new Date(v)\<close>: the time value, \<open>None\<close> for an invalid date (time value NaN).\<close>

fun newDate :: "jstime \<Rightarrow> int option" where
  "newDate TNull = Some 0"
| "newDate TUndefined = None"
| "newDate TInvalid = None"
| "newDate (TValid t) = Some t"

definition msPerDay :: int where
  "msPerDay = 1000 * 60 * 60 * 24"

text \<open>\<^verbatim>\<open>d.toISOString().slice(0,10)\<close>: throws on an invalid date.\<close>

fun toISODate :: "int option \<Rightarrow> error + int" where
  "toISODate None = Inl RangeError"
| "toISODate (Some t) = Inr (t div msPerDay)"

text \<open>\<^verbatim>\<open>new Date("YYYY-MM-DD")\<close> of a date string: UTC midnight of the day.\<close>

definition parseDate :: "int \<Rightarrow> int" where
  "parseDate d = d * msPerDay"

text \<open>\<^verbatim>\<open>d.getHours()\<close>: the local hour, \<open>None\<close> (NaN) for an invalid date.\<close>

fun getHours :: "int \<Rightarrow> int option \<Rightarrow> int option" where
  "getHours tz None = None"
| "getHours tz (Some t) = Some (((t + tz) div 3600000) mod 24)"

text \<open>\<^verbatim>\<open>function startOfDay(d){ const x=new Date(d); x.setHours(0,0,0,0); return x; }\<close>\<close>

definition startOfDay :: "int \<Rightarrow> jstime \<Rightarrow> int option" where
  "startOfDay tz d = map_option (\<lambda>t. t - (t + tz) mod msPerDay) (newDate d)"

text \<open>
  \<^verbatim>\<open>function daysAgo(n) { const d = new Date(); d.setDate(d.getDate()-n); return d.toISOString(); }\<close>
  with the clock reading \<open>now\<close>; the result is the ISO string of a valid date.
\<close>

definition daysAgo :: "int \<Rightarrow> int \<Rightarrow> jstime" where
  "daysAgo now n = TValid (now - n * msPerDay)"

text \<open>\<^verbatim>\<open>Number(x) || 0\<close>\<close>

definition numberOr0 :: "int option \<Rightarrow> int" where
  "numberOr0 x = (case x of None \<Rightarrow> 0 | Some n \<Rightarrow> n)"

text \<open>\<^verbatim>\<open>a >= b\<close> on two dates: false when either time value is NaN.\<close>

fun dateGe :: "int option \<Rightarrow> int option \<Rightarrow> bool" where
  "dateGe (Some a) (Some b) = (b \<le> a)"
| "dateGe _ _ = False"

text \<open>\<^verbatim>\<open>Math.round\<close> on an exact quotient: halves go up.\<close>

definition mathRound :: "rat \<Rightarrow> int" where
  "mathRound x = \<lfloor>x + 1 / 2\<rfloor>"

text \<open>
  \<^verbatim>\<open>a / b\<close> for two array lengths, \<open>b\<close> positive: the double nearest to the exact
  quotient, ties to the even significand. The quotient \<open>q\<close> lies between \<open>2 powi l\<close> and
  \<open>2 powi (l + 1)\<close>, its significand \<open>q / 2 powi (l - 52)\<close> is rounded to an integer of
  53 bits. Array lengths are far below \<open>2 ^ 53\<close>, so both operands are exact and the
  quotient is in the normal range.
\<close>

definition roundHalfEven :: "rat \<Rightarrow> int" where
  "roundHalfEven x =
     (let f = \<lfloor>x\<rfloor>; r = x - of_int f
      in if r < 1 / 2 then f else if 1 / 2 < r then f + 1 else if even f then f else f + 1)"

definition jsDivide :: "nat \<Rightarrow> nat \<Rightarrow> rat" where
  "jsDivide a b =
     (if a = 0 then 0
      else let q = (of_nat a / of_nat b :: rat);
               k = bitlen (int a) - bitlen (int b);
               l = (if 2 powi k \<le> q then k else k - 1);
               e = l - 52
           in of_int (roundHalfEven (q / 2 powi e)) * 2 powi e)"

text \<open>\<^verbatim>\<open>String(n)\<close> for a natural number.\<close>

function decimal :: "nat \<Rightarrow> string" where
  "decimal n = (if n < 10 then [''0123456789'' ! n]
                else decimal (n div 10) @ [''0123456789'' ! (n mod 10)])"
  by pat_completeness auto
termination
  by (relation "measure id") auto

declare decimal.simps [simp del]

text \<open>
  \<^verbatim>\<open>x.toFixed(2)\<close> for the exact value \<open>x\<close> of a double below \<open>10 ^ 21\<close>: with \<open>n\<close>
  the integer nearest to \<open>100 * x\<close> (the larger one of two), the digits of \<open>n\<close> padded
  on the left to three, with a point before the last two; a negative \<open>x\<close> is printed
  as a minus sign and the result for \<open>- x\<close>.
\<close>

definition toFixedDigits :: "rat \<Rightarrow> string" where
  "toFixedDigits x =
     (let n = nat \<lfloor>x * 100 + 1 / 2\<rfloor>;
          m = decimal n;
          m' = replicate (3 - length m) (CHR ''0'') @ m
      in take (length m' - 2) m' @ ''.'' @ drop (length m' - 2) m')"

definition toFixed2 :: "rat \<Rightarrow> string" where
  "toFixed2 x = (if x < 0 then ''-'' @ toFixedDigits (- x) else toFixedDigits x)"

text \<open>\<^verbatim>\<open>obj[k]++\<close> on an object whose keys are all initialised.\<close>

definition incr :: "'k \<Rightarrow> ('k \<times> nat) list \<Rightarrow> ('k \<times> nat) list" where
  "incr k obj = map (\<lambda>(k', v). if k' = k then (k', v + 1) else (k', v)) obj"

text \<open>\<^verbatim>\<open>set.add(x)\<close>\<close>

definition setAdd :: "'a \<Rightarrow> 'a list \<Rightarrow> 'a list" where
  "setAdd x xs = (if x \<in> set xs then xs else xs @ [x])"

text \<open>
  \<^verbatim>\<open>if (!m.has(k)) m.set(k, []); m.get(k).push(x)\<close>
\<close>

definition pushTo :: "'k \<Rightarrow> 'a \<Rightarrow> ('k \<times> 'a list) list \<Rightarrow> ('k \<times> 'a list) list" where
  "pushTo k x m =
     (let m1 = (if map_of m k = None then AList.update k [] m else m)
      in case map_of m1 k of None \<Rightarrow> m1 | Some l \<Rightarrow> AList.update k (l @ [x]) m1)"

text \<open>
  \<^verbatim>\<open>if (!m.has(k)) m.set(k, new Set()); m.get(k).add(x)\<close>
\<close>

definition addTo :: "'k \<Rightarrow> 'a \<Rightarrow> ('k \<times> 'a list) list \<Rightarrow> ('k \<times> 'a list) list" where
  "addTo k x m =
     (let m1 = (if map_of m k = None then AList.update k [] m else m)
      in case map_of m1 k of None \<Rightarrow> m1 | Some l \<Rightarrow> AList.update k (setAdd x l) m1)"

text \<open>A \<^verbatim>\<open>for ... of\<close> loop whose body may throw: the first exception ends the loop.\<close>

fun foldE :: "('a \<Rightarrow> 's \<Rightarrow> error + 's) \<Rightarrow> 'a list \<Rightarrow> 's \<Rightarrow> error + 's" where
  "foldE f [] s = Inr s"
| "foldE f (x # xs) s = (case f x s of Inl e \<Rightarrow> Inl e | Inr s' \<Rightarrow> foldE f xs s')"

subsection \<open>distinctUsers (lines 391-396)\<close>

definition distinctUsers :: "session list \<Rightarrow> jstime \<Rightarrow> nat" where
  "distinctUsers rows sinceIso =
     (let filteredRows = filter (\<lambda>r. dateGe (newDate (start_time r)) (newDate sinceIso)) rows
      in card (set (map user_id filteredRows)))"

subsection \<open>calculateDailyTrend (lines 552-560)\<close>

definition trendStep :: "int \<Rightarrow> item \<Rightarrow> (int \<rightharpoonup> nat) \<Rightarrow> error + (int \<rightharpoonup> nat)" where
  "trendStep tz it byDay =
     (if \<not> truthy_time (created_at it) then Inr byDay
      else case toISODate (startOfDay tz (created_at it)) of
             Inl e \<Rightarrow> Inl e
           | Inr k \<Rightarrow> Inr (byDay(k \<mapsto> (case byDay k of None \<Rightarrow> 0 | Some c \<Rightarrow> c) + 1)))"

definition calculateDailyTrend :: "int \<Rightarrow> item list \<Rightarrow> int list \<Rightarrow> error + nat list" where
  "calculateDailyTrend tz data labels =
     (case foldE (trendStep tz) data Map.empty of
        Inl e \<Rightarrow> Inl e
      | Inr byDay \<Rightarrow> Inr (map (\<lambda>k. case byDay k of None \<Rightarrow> 0 | Some c \<Rightarrow> c) labels))"

subsection \<open>calculateUserEngagement (lines 563-589)\<close>

definition pushSession :: "session \<Rightarrow> (string \<times> session list) list \<Rightarrow> (string \<times> session list) list" where
  "pushSession s m =
     (case user_id s of
        None \<Rightarrow> m
      | Some u \<Rightarrow> if u = [] then m else pushTo u s m)"

definition tierOf :: "nat \<Rightarrow> tier" where
  "tierOf sessionCount =
     (if sessionCount \<ge> 12 then High
      else if sessionCount \<ge> 4 then Medium
      else if sessionCount \<ge> 1 then Low
      else Inactive)"

definition calculateUserEngagement :: "session list \<Rightarrow> jstime \<Rightarrow> (tier \<times> nat) list" where
  "calculateUserEngagement sessions since30 =
     (let userSessionMap = fold pushSession sessions [];
          engagementLevels = [(High, 0), (Medium, 0), (Low, 0), (Inactive, 0)]
      in fold (\<lambda>(userId, ss). incr (tierOf (length ss))) userSessionMap engagementLevels)"

subsection \<open>calculateSessionFrequency (lines 592-616)\<close>

definition countSession :: "session \<Rightarrow> (string \<times> nat) list \<Rightarrow> (string \<times> nat) list" where
  "countSession s m =
     (case user_id s of
        None \<Rightarrow> m
      | Some u \<Rightarrow> if u = [] then m
                 else AList.update u ((case map_of m u of None \<Rightarrow> 0 | Some c \<Rightarrow> c) + 1) m)"

definition freqOf :: "nat \<Rightarrow> freq_label" where
  "freqOf count =
     (if count \<le> 2 then F1_2
      else if count \<le> 5 then F3_5
      else if count \<le> 10 then F6_10
      else if count \<le> 20 then F11_20
      else F20plus)"

definition calculateSessionFrequency :: "session list \<Rightarrow> (freq_label \<times> nat) list" where
  "calculateSessionFrequency sessions =
     (let frequency = [(F1_2, 0), (F3_5, 0), (F6_10, 0), (F11_20, 0), (F20plus, 0)];
          userSessionCount = fold countSession sessions []
      in fold (\<lambda>count. incr (freqOf count)) (map snd userSessionCount) frequency)"

subsection \<open>calculateSessionDepth (lines 619-744)\<close>

definition durationLabelOf :: "int \<Rightarrow> duration_label" where
  "durationLabelOf minutes =
     (if minutes \<le> 5 then D0_5
      else if minutes \<le> 15 then D5_15
      else if minutes \<le> 30 then D15_30
      else if minutes \<le> 60 then D30_60
      else D60plus)"

text \<open>The comparisons with a NaN hour are all false, which leaves the last branch.\<close>

definition todLabelOf :: "int option \<Rightarrow> tod_label" where
  "todLabelOf hour =
     (case hour of
        None \<Rightarrow> Evening
      | Some h \<Rightarrow> if h \<ge> 0 \<and> h < 6 then Night
                 else if h \<ge> 6 \<and> h < 12 then Morning
                 else if h \<ge> 12 \<and> h < 18 then Afternoon
                 else Evening)"

definition distStep ::
  "int \<Rightarrow> session \<Rightarrow> (duration_label \<times> nat) list \<times> (tod_label \<times> nat) list
     \<Rightarrow> (duration_label \<times> nat) list \<times> (tod_label \<times> nat) list" where
  "distStep tz s acc =
     (case acc of (dd, tod) \<Rightarrow>
        let dur = numberOr0 (duration s);
            minutes = dur div 60;
            dd' = incr (durationLabelOf minutes) dd
        in if truthy_time (start_time s)
           then (dd', incr (todLabelOf (getHours tz (newDate (start_time s)))) tod)
           else (dd', tod))"

definition groupStep ::
  "session \<Rightarrow> (string \<times> session list) list \<times> (string \<times> int list) list
     \<Rightarrow> error + (string \<times> session list) list \<times> (string \<times> int list) list" where
  "groupStep s acc =
     (case acc of (userSessions, userDays) \<Rightarrow>
        case user_id s of
          None \<Rightarrow> Inr (userSessions, userDays)
        | Some u \<Rightarrow>
            if u = [] then Inr (userSessions, userDays)
            else let userSessions' = pushTo u s userSessions
                 in if truthy_time (start_time s)
                    then case toISODate (newDate (start_time s)) of
                           Inl e \<Rightarrow> Inl e
                         | Inr date \<Rightarrow> Inr (userSessions', addTo u date userDays)
                    else Inr (userSessions', userDays))"

definition uniqueStep :: "session \<Rightarrow> int list \<Rightarrow> error + int list" where
  "uniqueStep s uniqueDays =
     (if truthy_time (start_time s)
      then case toISODate (newDate (start_time s)) of
             Inl e \<Rightarrow> Inl e
           | Inr date \<Rightarrow> Inr (setAdd date uniqueDays)
      else Inr uniqueDays)"

text \<open>
  The inner loop over \<^verbatim>\<open>i = 1 .. dates.length - 1\<close>; the head of the list is
  \<^verbatim>\<open>dates[i-1]\<close>, the arguments are \<^verbatim>\<open>currentConsecutive\<close> and
  \<^verbatim>\<open>maxUserConsecutive\<close>.
\<close>

fun streakLoop :: "int list \<Rightarrow> nat \<Rightarrow> nat \<Rightarrow> nat" where
  "streakLoop (prevDate # currDate # rest) currentConsecutive maxUserConsecutive =
     (let diffDays = (parseDate currDate - parseDate prevDate) div msPerDay
      in if diffDays = 1
         then streakLoop (currDate # rest) (currentConsecutive + 1)
                (max maxUserConsecutive (currentConsecutive + 1))
         else if diffDays > 1
         then streakLoop (currDate # rest) 1 maxUserConsecutive
         else streakLoop (currDate # rest) currentConsecutive maxUserConsecutive)"
| "streakLoop dates currentConsecutive maxUserConsecutive = maxUserConsecutive"

definition userStreak :: "int list \<Rightarrow> nat" where
  "userStreak datesSet = (let dates = sort datesSet in streakLoop dates 1 1)"

definition longestStreak :: "(string \<times> int list) list \<Rightarrow> nat" where
  "longestStreak userDays =
     fold (\<lambda>(userId, datesSet) maxConsecutive. max maxConsecutive (userStreak datesSet))
       userDays 0"

definition intensityOf :: "session list \<Rightarrow> intensity_label" where
  "intensityOf userSessionsList =
     (let sessionCount = length userSessionsList;
          totalDuration = fold (\<lambda>s sum. sum + numberOr0 (duration s)) userSessionsList 0;
          avgDuration = (if sessionCount > 0
                         then of_int totalDuration / of_nat sessionCount else (0 :: rat))
      in if avgDuration < 300 \<and> sessionCount \<ge> 10 then ShortFrequent
         else if avgDuration \<ge> 600 \<and> sessionCount < 5 then LongInfrequent
         else if avgDuration \<ge> 300 \<and> sessionCount \<ge> 5 then Balanced
         else Shallow)"

definition calculateSessionDepth :: "int \<Rightarrow> session list \<Rightarrow> error + depth_analysis" where
  "calculateSessionDepth tz sessions =
     (case fold (distStep tz) sessions
             ([(D0_5, 0), (D5_15, 0), (D15_30, 0), (D30_60, 0), (D60plus, 0)],
              [(Night, 0), (Morning, 0), (Afternoon, 0), (Evening, 0)]) of
        (dd, tod) \<Rightarrow>
          case foldE groupStep sessions ([], []) of
            Inl e \<Rightarrow> Inl e
          | Inr (userSessions, userDays) \<Rightarrow>
              case foldE uniqueStep sessions [] of
                Inl e \<Rightarrow> Inl e
              | Inr uniqueDays \<Rightarrow>
                  let totalSessions = length sessions
                  in Inr \<lparr> durationDistribution = dd,
                           timeOfDayDistribution = tod,
                           sessionIntensity =
                             fold (\<lambda>(userId, userSessionsList). incr (intensityOf userSessionsList))
                               userSessions
                               [(ShortFrequent, 0), (LongInfrequent, 0), (Balanced, 0), (Shallow, 0)],
                           avgSessionsPerDay =
                             (if length uniqueDays > 0
                              then JStr (toFixed2 (jsDivide totalSessions (length uniqueDays)))
                              else JNum 0),
                           maxConsecutiveDays = longestStreak userDays \<rparr>)"

subsection \<open>getBehaviorMetrics (lines 340-549)\<close>

text \<open>
  The function is embedded from the point where the session rows have been fetched and
  filtered by role (\<open>rows\<close>) and the five feature tables have been fetched (each fetch
  has its own \<^verbatim>\<open>catch\<close> that yields an empty list). \<open>now\<close> is the clock reading.
\<close>

text \<open>
  The loop of lines 417-425 over the rows. The two maps always have the same keys.
\<close>

definition byDayStep ::
  "int \<Rightarrow> session \<Rightarrow> (int \<rightharpoonup> string option list) \<times> (int \<rightharpoonup> session list)
     \<Rightarrow> error + (int \<rightharpoonup> string option list) \<times> (int \<rightharpoonup> session list)" where
  "byDayStep tz r acc =
     (case acc of (byDay, sessionsByDay) \<Rightarrow>
        case toISODate (startOfDay tz (start_time r)) of
          Inl e \<Rightarrow> Inl e
        | Inr k \<Rightarrow>
            (case (if byDay k = None then (byDay(k \<mapsto> []), sessionsByDay(k \<mapsto> []))
                   else (byDay, sessionsByDay)) of
               (byDay1, sessionsByDay1) \<Rightarrow>
                 Inr (byDay1(k \<mapsto> setAdd (user_id r) (case byDay1 k of None \<Rightarrow> [] | Some l \<Rightarrow> l)),
                      sessionsByDay1(k \<mapsto> (case sessionsByDay1 k of None \<Rightarrow> [] | Some l \<Rightarrow> l) @ [r]))))"

text \<open>The thirty labels of lines 427-430, oldest first, ending with today.\<close>

definition windowLabels :: "int \<Rightarrow> int list" where
  "windowLabels now = map (\<lambda>i. (now - (29 - int i) * msPerDay) div msPerDay) [0..<30]"

text \<open>\<^verbatim>\<open>Math.round(list.reduce((sum, s) => sum + (Number(s.duration)||0), 0) / list.length)\<close>\<close>

definition roundedAvgDuration :: "session list \<Rightarrow> int" where
  "roundedAvgDuration l =
     (if length l > 0
      then mathRound (of_int (fold (\<lambda>s sum. sum + numberOr0 (duration s)) l 0) / of_nat (length l))
      else 0)"

text \<open>The value returned by the \<^verbatim>\<open>catch\<close> block (lines 526-547).\<close>

definition defaultMetrics :: metrics where
  "defaultMetrics =
     \<lparr> dau = 0, wau = 0, mau = 0, avgSessionMin = 0,
       sessionStats = \<lparr> stat_avg = 0, stat_min = 0, stat_max = 0, stat_total = 0 \<rparr>,
       retentionD1 = 0,
       active30 = replicate 30 0,
       sessions30 = replicate 30 0,
       avgDuration30 = replicate 30 0,
       featureUsage = \<lparr> usage_labels = [], usage_values = [] \<rparr>,
       featureTrends = [],
       userEngagement = [],
       sessionFrequency = [],
       sessionDepth =
         \<lparr> durationDistribution = [(D0_5, 0), (D5_15, 0), (D15_30, 0), (D30_60, 0), (D60plus, 0)],
           timeOfDayDistribution = [(Night, 0), (Morning, 0), (Afternoon, 0), (Evening, 0)],
           sessionIntensity = [(ShortFrequent, 0), (LongInfrequent, 0), (Balanced, 0), (Shallow, 0)],
           avgSessionsPerDay = JNum 0,
           maxConsecutiveDays = 0 \<rparr> \<rparr>"

text \<open>The \<^verbatim>\<open>try\<close> block (lines 341-523): \<open>Inl\<close> when one of its stages throws.\<close>

definition behaviorMetricsBody ::
  "int \<Rightarrow> int \<Rightarrow> session list \<Rightarrow> item list \<Rightarrow> item list \<Rightarrow> item list \<Rightarrow> item list \<Rightarrow> item list
     \<Rightarrow> error + metrics" where
  "behaviorMetricsBody tz now rows homework exams notes flashcards pomodoro =
     (let since30 = daysAgo now 30;
          since7 = daysAgo now 7;
          since1 = daysAgo now 1;
          avgSession = roundedAvgDuration rows;
          sessionDurations = filter (\<lambda>d. d > 0) (map (\<lambda>r. numberOr0 (duration r)) rows)
      in case foldE (byDayStep tz) rows (Map.empty, Map.empty) of
           Inl e \<Rightarrow> Inl e
         | Inr (byDay, sessionsByDay) \<Rightarrow>
             let labels = windowLabels now
             in case calculateDailyTrend tz homework labels of Inl e \<Rightarrow> Inl e | Inr tHomework \<Rightarrow>
                case calculateDailyTrend tz exams labels of Inl e \<Rightarrow> Inl e | Inr tExams \<Rightarrow>
                case calculateDailyTrend tz notes labels of Inl e \<Rightarrow> Inl e | Inr tNotes \<Rightarrow>
                case calculateDailyTrend tz flashcards labels of Inl e \<Rightarrow> Inl e | Inr tFlashcards \<Rightarrow>
                case calculateDailyTrend tz pomodoro labels of Inl e \<Rightarrow> Inl e | Inr tPomodoro \<Rightarrow>
                case calculateSessionDepth tz rows of Inl e \<Rightarrow> Inl e | Inr depth \<Rightarrow>
                  Inr \<lparr> dau = distinctUsers rows since1,
                        wau = distinctUsers rows since7,
                        mau = distinctUsers rows since30,
                        avgSessionMin = avgSession,
                        sessionStats =
                          \<lparr> stat_avg = avgSession,
                            stat_min = (case sessionDurations of [] \<Rightarrow> 0 | x # xs \<Rightarrow> fold min xs x),
                            stat_max = (case sessionDurations of [] \<Rightarrow> 0 | x # xs \<Rightarrow> fold max xs x),
                            stat_total = fold (\<lambda>d sum. sum + d) sessionDurations 0 \<rparr>,
                        retentionD1 = 0,
                        active30 = map (\<lambda>k. case byDay k of None \<Rightarrow> 0 | Some us \<Rightarrow> length us) labels,
                        sessions30 =
                          map (\<lambda>k. case sessionsByDay k of None \<Rightarrow> 0 | Some l \<Rightarrow> length l) labels,
                        avgDuration30 =
                          map (\<lambda>k. roundedAvgDuration
                                     (case sessionsByDay k of None \<Rightarrow> [] | Some l \<Rightarrow> l)) labels,
                        featureUsage =
                          \<lparr> usage_labels = [Homework, Exams, Notes, Flashcards, Pomodoro],
                            usage_values = [length homework, length exams, length notes,
                                            length flashcards, length pomodoro] \<rparr>,
                        featureTrends =
                          [(Homework, tHomework), (Exams, tExams), (Notes, tNotes),
                           (Flashcards, tFlashcards), (Pomodoro, tPomodoro)],
                        userEngagement = calculateUserEngagement rows since30,
                        sessionFrequency = calculateSessionFrequency rows,
                        sessionDepth = depth \<rparr>)"

definition getBehaviorMetrics ::
  "int \<Rightarrow> int \<Rightarrow> session list \<Rightarrow> item list \<Rightarrow> item list \<Rightarrow> item list \<Rightarrow> item list \<Rightarrow> item list
     \<Rightarrow> metrics" where
  "getBehaviorMetrics tz now rows homework exams notes flashcards pomodoro =
     (case behaviorMetricsBody tz now rows homework exams notes flashcards pomodoro of
        Inl e \<Rightarrow> defaultMetrics
      | Inr result \<Rightarrow> result)"

subsection \<open>Reference notions used to state the properties\<close>

text \<open>
  The users of a collection of sessions: the distinct non-empty identifiers. The
  sessions of one user. The number of users whose sessions satisfy a predicate.
\<close>

definition spec_users :: "session list \<Rightarrow> string list" where
  "spec_users sessions =
     remdups (concat (map (\<lambda>s. case user_id s of None \<Rightarrow> [] | Some u \<Rightarrow> if u = [] then [] else [u])
                        sessions))"

definition spec_sessionsOf :: "string \<Rightarrow> session list \<Rightarrow> session list" where
  "spec_sessionsOf u sessions = filter (\<lambda>s. user_id s = Some u) sessions"

definition spec_usersWhere :: "(session list \<Rightarrow> bool) \<Rightarrow> session list \<Rightarrow> nat" where
  "spec_usersWhere P sessions =
     length (filter (\<lambda>u. P (spec_sessionsOf u sessions)) (spec_users sessions))"

text \<open>
  The calendar date of a session that has a start time, the dates of one user's sessions
  and the distinct dates of all sessions.
\<close>

definition spec_dayOf :: "session \<Rightarrow> int option" where
  "spec_dayOf s = (case start_time s of TValid t \<Rightarrow> Some (t div msPerDay) | _ \<Rightarrow> None)"

definition spec_userDates :: "string \<Rightarrow> session list \<Rightarrow> int list" where
  "spec_userDates u sessions = List.map_filter spec_dayOf (spec_sessionsOf u sessions)"

definition spec_activeDays :: "session list \<Rightarrow> int list" where
  "spec_activeDays sessions = remdups (List.map_filter spec_dayOf sessions)"

text \<open>
  The bodies of the second and third loop of \<^verbatim>\<open>calculateSessionDepth\<close> on a session
  for which \<^verbatim>\<open>toISOString\<close> does not throw: what they do to \<^verbatim>\<open>userDays\<close> and to
  \<^verbatim>\<open>uniqueDays\<close>. They are used to state what the loops compute when no exception
  is raised.
\<close>

definition addDay :: "session \<Rightarrow> (string \<times> int list) list \<Rightarrow> (string \<times> int list) list" where
  "addDay s userDays =
     (case user_id s of
        None \<Rightarrow> userDays
      | Some u \<Rightarrow> if u = [] then userDays
                 else case spec_dayOf s of None \<Rightarrow> userDays | Some date \<Rightarrow> addTo u date userDays)"

definition addUnique :: "session \<Rightarrow> int list \<Rightarrow> int list" where
  "addUnique s uniqueDays =
     (case spec_dayOf s of None \<Rightarrow> uniqueDays | Some date \<Rightarrow> setAdd date uniqueDays)"

text \<open>
  The duration of a session in whole minutes and the average duration, in seconds, of a
  list of sessions; a duration that is missing or not a number counts as 0.
\<close>

definition spec_minutes :: "session \<Rightarrow> int" where
  "spec_minutes s = numberOr0 (duration s) div 60"

definition spec_avgDuration :: "session list \<Rightarrow> rat" where
  "spec_avgDuration l = of_int (sum_list (map (\<lambda>s. numberOr0 (duration s)) l)) / of_nat (length l)"

text \<open>
  A run: the \<open>n\<close> consecutive calendar dates starting at date \<open>a\<close> all occur in the
  list of dates.
\<close>

definition spec_run :: "int list \<Rightarrow> int \<Rightarrow> nat \<Rightarrow> bool" where
  "spec_run dates a n = (\<forall>i \<in> {0..<n}. a + int i \<in> set dates)"

text \<open>
  The invariant of the loop over the sorted dates of one user, used in the proof of the
  streak computation: \<open>P\<close> is the set of dates read so far, \<open>prev\<close> the last of them,
  \<open>cur\<close> the length of the run that ends at \<open>prev\<close> and \<open>mx\<close> the length of the longest
  run in \<open>P\<close>.
\<close>

definition streak_inv :: "int set \<Rightarrow> int \<Rightarrow> nat \<Rightarrow> nat \<Rightarrow> bool" where
  "streak_inv P prev cur mx \<longleftrightarrow>
     prev \<in> P \<and> (\<forall>x \<in> P. x \<le> prev) \<and> 1 \<le> cur \<and> cur \<le> mx
     \<and> (\<forall>k. prev - int cur < k \<and> k \<le> prev \<longrightarrow> k \<in> P)
     \<and> prev - int cur \<notin> P
     \<and> (\<forall>a n. (\<forall>k. a \<le> k \<and> k < a + int n \<longrightarrow> k \<in> P) \<longrightarrow> n \<le> mx)
     \<and> (\<exists>a. \<forall>k. a \<le> k \<and> k < a + int mx \<longrightarrow> k \<in> P)"

text \<open>
  Local midnight: the instant at which the local calendar day of the instant \<open>t\<close>
  began, given as the number of whole local days before \<open>t\<close> taken back to UTC. The
  bucket key of a feature record with a timestamp that parses is the date string of
  the local midnight of that timestamp; other records have no key.
\<close>

definition spec_localMidnight :: "int \<Rightarrow> int \<Rightarrow> int" where
  "spec_localMidnight tz t = ((t + tz) div msPerDay) * msPerDay - tz"

definition spec_bucketKey :: "int \<Rightarrow> item \<Rightarrow> int option" where
  "spec_bucketKey tz it =
     (case created_at it of
        TValid t \<Rightarrow> Some (spec_localMidnight tz t div msPerDay)
      | _ \<Rightarrow> None)"

section \<open>Properties\<close>

subsection \<open>Counters and grouping by user\<close>

lemma map_fst_incr: "map fst (incr k obj) = map fst obj"
  by (induction obj) (auto simp: incr_def)

lemma map_of_incr:
  "map_of (incr k obj) k' = map_option (\<lambda>v. if k' = k then v + 1 else v) (map_of obj k')"
  by (induction obj) (auto simp: incr_def)

lemma map_fst_fold_incr: "map fst (fold (\<lambda>x. incr (f x)) xs obj) = map fst obj"
  by (induction xs arbitrary: obj) (simp_all add: map_fst_incr)

lemma map_of_fold_incr:
  "map_of (fold (\<lambda>x. incr (f x)) xs obj) k
     = map_option (\<lambda>v. v + length (filter (\<lambda>x. f x = k) xs)) (map_of obj k)"
proof (induction xs arbitrary: obj)
  case Nil
  show ?case by (simp add: option.map_ident)
next
  case (Cons x xs)
  show ?case
    by (cases "map_of obj k") (simp_all add: Cons.IH map_of_incr)
qed

lemma pushTo_eq:
  "pushTo k x m = AList.update k ((case map_of m k of None \<Rightarrow> [] | Some l \<Rightarrow> l) @ [x]) m"
  by (cases "map_of m k") (simp_all add: pushTo_def Let_def AList.update_conv')

lemma addTo_eq:
  "addTo k x m = AList.update k (setAdd x (case map_of m k of None \<Rightarrow> [] | Some l \<Rightarrow> l)) m"
  by (cases "map_of m k") (simp_all add: addTo_def Let_def AList.update_conv')

lemma spec_users_Cons:
  "set (spec_users (s # ss)) =
     (case user_id s of None \<Rightarrow> {} | Some u \<Rightarrow> if u = [] then {} else {u}) \<union> set (spec_users ss)"
  by (auto simp: spec_users_def split: option.splits if_splits)

lemma spec_users_Nil: "spec_users [] = []"
  by (simp add: spec_users_def)

lemma distinct_spec_users: "distinct (spec_users ss)"
  by (simp add: spec_users_def)

lemma spec_users_nonempty: "u \<in> set (spec_users ss) \<Longrightarrow> u \<noteq> []"
  by (auto simp: spec_users_def split: option.splits if_splits)

lemma spec_users_iff: "u \<in> set (spec_users ss) \<longleftrightarrow> u \<noteq> [] \<and> Some u \<in> user_id ` set ss"
  by (auto simp: spec_users_def image_iff split: option.splits if_splits)

lemma keys_pushSession:
  "set (map fst (pushSession s m)) =
     set (map fst m) \<union> (case user_id s of None \<Rightarrow> {} | Some u \<Rightarrow> if u = [] then {} else {u})"
  by (auto simp: pushSession_def pushTo_eq AList.dom_update split: option.splits)

lemma distinct_pushSession:
  "distinct (map fst m) \<Longrightarrow> distinct (map fst (pushSession s m))"
  by (auto simp: pushSession_def pushTo_eq AList.distinct_update split: option.splits)

lemma keys_fold_pushSession:
  "set (map fst (fold pushSession ss m)) = set (map fst m) \<union> set (spec_users ss)"
proof (induction ss arbitrary: m)
  case Nil
  show ?case by (simp add: spec_users_Nil)
next
  case (Cons s ss)
  show ?case
    unfolding fold_simps Cons.IH keys_pushSession spec_users_Cons by blast
qed

lemma distinct_fold_pushSession:
  "distinct (map fst m) \<Longrightarrow> distinct (map fst (fold pushSession ss m))"
  by (induction ss arbitrary: m) (simp_all add: distinct_pushSession)

lemma map_of_pushSession:
  "map_of (pushSession s m) u =
     (if user_id s = Some u \<and> u \<noteq> []
      then Some ((case map_of m u of None \<Rightarrow> [] | Some l \<Rightarrow> l) @ [s])
      else map_of m u)"
  by (auto simp: pushSession_def pushTo_eq AList.update_conv' split: option.splits)

lemma map_of_fold_pushSession:
  "map_of (fold pushSession ss m) u =
     (if u \<in> set (map fst m) \<or> u \<in> set (spec_users ss)
      then Some ((case map_of m u of None \<Rightarrow> [] | Some l \<Rightarrow> l)
                 @ filter (\<lambda>s. user_id s = Some u \<and> u \<noteq> []) ss)
      else None)"
proof (induction ss arbitrary: m)
  case Nil
  show ?case
    by (cases "map_of m u") (auto simp: spec_users_Nil map_of_eq_None_iff dest: map_of_SomeD intro: rev_image_eqI)
next
  case (Cons s ss)
  have k: "u \<in> set (map fst (pushSession s m)) \<or> u \<in> set (spec_users ss)
           \<longleftrightarrow> u \<in> set (map fst m) \<or> u \<in> set (spec_users (s # ss))"
    unfolding keys_pushSession spec_users_Cons by blast
  show ?case
    unfolding fold_simps Cons.IH k
    by (auto simp: map_of_pushSession split: option.splits)
qed

subsection \<open>Active-user counts\<close>

lemma dateGe_mono: "c' \<le> c \<Longrightarrow> dateGe d (Some c) \<Longrightarrow> dateGe d (Some c')"
  by (cases d) auto

lemma distinctUsers_cutoff_mono:
  "c' \<le> c \<Longrightarrow> distinctUsers rows (TValid c) \<le> distinctUsers rows (TValid c')"
  unfolding distinctUsers_def Let_def
  by (rule card_mono) (auto intro: dateGe_mono)

text \<open>
  Claim C5. Over one collection of session rows and one clock reading, the number of
  distinct users since one day ago is at most the number since seven days ago, which is
  at most the number since thirty days ago: DAU \<open>\<le>\<close> WAU \<open>\<le>\<close> MAU.
\<close>

theorem distinctUsers_monotone:
  "distinctUsers rows (daysAgo now 1) \<le> distinctUsers rows (daysAgo now 7)
   \<and> distinctUsers rows (daysAgo now 7) \<le> distinctUsers rows (daysAgo now 30)"
  unfolding daysAgo_def
  by (intro conjI distinctUsers_cutoff_mono) (simp_all add: msPerDay_def)

subsection \<open>Engagement tiers\<close>

lemma count_entries:
  "distinct (map fst al) \<Longrightarrow>
   length (filter (\<lambda>(k, v). P k v) al) = length (filter (\<lambda>k. P k (the (map_of al k))) (map fst al))"
proof (induction al)
  case Nil
  show ?case by simp
next
  case (Cons a al)
  obtain k v where a: "a = (k, v)" by (cases a)
  from Cons.prems a have nk: "k \<notin> fst ` set al" and d: "distinct (map fst al)" by auto
  have eq: "filter (\<lambda>k'. P k' (the (map_of ((k, v) # al) k'))) (map fst al)
          = filter (\<lambda>k'. P k' (the (map_of al k'))) (map fst al)"
    using nk by (intro filter_cong refl) auto
  show ?case
    unfolding a using Cons.IH[OF d] eq by simp
qed

lemma count_distinct_set:
  assumes "distinct xs" "distinct ys" "set xs = set ys"
  shows "length (filter P xs) = length (filter P ys)"
proof -
  have "length (filter P xs) = card {x \<in> set xs. P x}"
    using assms(1) by (metis distinct_card distinct_filter set_filter)
  moreover have "length (filter P ys) = card {x \<in> set ys. P x}"
    using assms(2) by (metis distinct_card distinct_filter set_filter)
  ultimately show ?thesis using assms(3) by simp
qed

lemma userSessionMap_lookup:
  "u \<in> set (spec_users ss) \<Longrightarrow> map_of (fold pushSession ss []) u = Some (spec_sessionsOf u ss)"
  by (simp add: map_of_fold_pushSession spec_users_nonempty spec_sessionsOf_def)

lemma userSessionMap_count:
  "length (filter (\<lambda>(u, l). Q l) (fold pushSession ss [])) = spec_usersWhere Q ss"
proof -
  let ?al = "fold pushSession ss []"
  have d: "distinct (map fst ?al)" by (simp add: distinct_fold_pushSession)
  have k: "set (map fst ?al) = set (spec_users ss)"
    using keys_fold_pushSession[of ss "[]"] by simp
  have "length (filter (\<lambda>(u, l). Q l) ?al)
        = length (filter (\<lambda>u. Q (the (map_of ?al u))) (map fst ?al))"
    by (rule count_entries[OF d])
  also have "\<dots> = length (filter (\<lambda>u. Q (the (map_of ?al u))) (spec_users ss))"
    by (rule count_distinct_set[OF d distinct_spec_users k])
  also have "\<dots> = length (filter (\<lambda>u. Q (spec_sessionsOf u ss)) (spec_users ss))"
    by (rule arg_cong[where f = length], rule filter_cong) (simp_all add: userSessionMap_lookup)
  finally show ?thesis by (simp add: spec_usersWhere_def)
qed

lemma userSessionMap_count_snd:
  "length (filter (\<lambda>x. Q (snd x)) (fold pushSession ss [])) = spec_usersWhere Q ss"
proof -
  have "(\<lambda>x. Q (snd x)) = (\<lambda>(u :: string, l). Q l)" by auto
  then show ?thesis by (simp only: userSessionMap_count)
qed

lemma spec_sessionsOf_nonempty:
  "u \<in> set (spec_users ss) \<Longrightarrow> spec_sessionsOf u ss \<noteq> []"
  by (auto simp: spec_users_iff spec_sessionsOf_def filter_empty_conv)

lemma spec_usersWhere_False:
  "(\<And>u. u \<in> set (spec_users ss) \<Longrightarrow> \<not> P (spec_sessionsOf u ss)) \<Longrightarrow> spec_usersWhere P ss = 0"
  by (simp add: spec_usersWhere_def)

lemma engagement_fold:
  "fold (\<lambda>(userId, ss). incr (tierOf (length ss))) al obj
     = fold (\<lambda>x. incr (tierOf (length (snd x)))) al obj"
  by (rule arg_cong[where f = "\<lambda>f. fold f al obj"]) (auto simp: fun_eq_iff)

lemma engagement_lookup:
  "map_of (calculateUserEngagement sessions since30) t
     = Some (spec_usersWhere (\<lambda>l. tierOf (length l) = t) sessions)"
proof -
  have "length (filter (\<lambda>x. tierOf (length (snd x)) = t) (fold pushSession sessions []))
        = spec_usersWhere (\<lambda>l. tierOf (length l) = t) sessions"
    by (rule userSessionMap_count_snd)
  then show ?thesis
    unfolding calculateUserEngagement_def Let_def engagement_fold map_of_fold_incr
    by (cases t) simp_all
qed

lemma tierOf_High: "tierOf n = High \<longleftrightarrow> 12 \<le> n"
  and tierOf_Medium: "tierOf n = Medium \<longleftrightarrow> 4 \<le> n \<and> n < 12"
  and tierOf_Low: "tierOf n = Low \<longleftrightarrow> 1 \<le> n \<and> n < 4"
  and tierOf_Inactive: "tierOf n = Inactive \<longleftrightarrow> n = 0"
  by (auto simp: tierOf_def)

text \<open>
  Claim C8. The engagement classifier groups the sessions by user and classifies each
  user by the number of sessions: at least 12 is high, 4 to 11 is medium, 1 to 3 is low.
  The result has exactly the four keys high, medium, low, inactive, and the inactive
  count is 0 for every input.
\<close>

theorem calculateUserEngagement_tiers:
  "map fst (calculateUserEngagement sessions since30) = [High, Medium, Low, Inactive]
   \<and> map_of (calculateUserEngagement sessions since30) High
       = Some (spec_usersWhere (\<lambda>l. 12 \<le> length l) sessions)
   \<and> map_of (calculateUserEngagement sessions since30) Medium
       = Some (spec_usersWhere (\<lambda>l. 4 \<le> length l \<and> length l < 12) sessions)
   \<and> map_of (calculateUserEngagement sessions since30) Low
       = Some (spec_usersWhere (\<lambda>l. 1 \<le> length l \<and> length l < 4) sessions)
   \<and> map_of (calculateUserEngagement sessions since30) Inactive = Some 0"
proof -
  have keys: "map fst (calculateUserEngagement sessions since30) = [High, Medium, Low, Inactive]"
    unfolding calculateUserEngagement_def Let_def engagement_fold map_fst_fold_incr by simp
  have "spec_usersWhere (\<lambda>l. tierOf (length l) = Inactive) sessions = 0"
    by (rule spec_usersWhere_False) (simp add: tierOf_Inactive spec_sessionsOf_nonempty)
  then have inactive: "map_of (calculateUserEngagement sessions since30) Inactive = Some 0"
    by (simp add: engagement_lookup)
  show ?thesis
    using keys inactive
    by (simp add: engagement_lookup tierOf_High tierOf_Medium tierOf_Low)
qed

theorem calculateUserEngagement_tiers_witness:
  "map_of (calculateUserEngagement
      [\<lparr>user_id = Some ''a'', duration = Some 60, start_time = TValid 0\<rparr>,
       \<lparr>user_id = None, duration = None, start_time = TNull\<rparr>,
       \<lparr>user_id = Some ''b'', duration = None, start_time = TValid 5\<rparr>,
       \<lparr>user_id = Some ''a'', duration = Some 10, start_time = TUndefined\<rparr>] TNull) Low = Some 2"
  using calculateUserEngagement_tiers
    [of "[\<lparr>user_id = Some ''a'', duration = Some 60, start_time = TValid 0\<rparr>,
       \<lparr>user_id = None, duration = None, start_time = TNull\<rparr>,
       \<lparr>user_id = Some ''b'', duration = None, start_time = TValid 5\<rparr>,
       \<lparr>user_id = Some ''a'', duration = Some 10, start_time = TUndefined\<rparr>]" TNull]
  by (simp add: spec_usersWhere_def spec_users_def spec_sessionsOf_def)

subsection \<open>Session frequency\<close>

lemma keys_countSession:
  "set (map fst (countSession s m)) =
     set (map fst m) \<union> (case user_id s of None \<Rightarrow> {} | Some u \<Rightarrow> if u = [] then {} else {u})"
  by (auto simp: countSession_def AList.dom_update split: option.splits)

lemma distinct_countSession:
  "distinct (map fst m) \<Longrightarrow> distinct (map fst (countSession s m))"
  by (auto simp: countSession_def AList.distinct_update split: option.splits)

lemma keys_fold_countSession:
  "set (map fst (fold countSession ss m)) = set (map fst m) \<union> set (spec_users ss)"
proof (induction ss arbitrary: m)
  case Nil
  show ?case by (simp add: spec_users_Nil)
next
  case (Cons s ss)
  show ?case
    unfolding fold_simps Cons.IH keys_countSession spec_users_Cons by blast
qed

lemma distinct_fold_countSession:
  "distinct (map fst m) \<Longrightarrow> distinct (map fst (fold countSession ss m))"
  by (induction ss arbitrary: m) (simp_all add: distinct_countSession)

lemma map_of_countSession:
  "map_of (countSession s m) u =
     (if user_id s = Some u \<and> u \<noteq> []
      then Some ((case map_of m u of None \<Rightarrow> 0 | Some c \<Rightarrow> c) + 1)
      else map_of m u)"
  by (auto simp: countSession_def AList.update_conv' split: option.splits)

lemma map_of_fold_countSession:
  "map_of (fold countSession ss m) u =
     (if u \<in> set (map fst m) \<or> u \<in> set (spec_users ss)
      then Some ((case map_of m u of None \<Rightarrow> 0 | Some c \<Rightarrow> c)
                 + length (filter (\<lambda>s. user_id s = Some u \<and> u \<noteq> []) ss))
      else None)"
proof (induction ss arbitrary: m)
  case Nil
  show ?case
    by (cases "map_of m u") (auto simp: spec_users_Nil map_of_eq_None_iff dest: map_of_SomeD intro: rev_image_eqI)
next
  case (Cons s ss)
  have k: "u \<in> set (map fst (countSession s m)) \<or> u \<in> set (spec_users ss)
           \<longleftrightarrow> u \<in> set (map fst m) \<or> u \<in> set (spec_users (s # ss))"
    unfolding keys_countSession spec_users_Cons by blast
  show ?case
    unfolding fold_simps Cons.IH k
    by (auto simp: map_of_countSession split: option.splits)
qed

lemma userSessionCount_lookup:
  "u \<in> set (spec_users ss) \<Longrightarrow>
   map_of (fold countSession ss []) u = Some (length (spec_sessionsOf u ss))"
  by (simp add: map_of_fold_countSession spec_users_nonempty spec_sessionsOf_def)

lemma userSessionCount_count:
  "length (filter Q (map snd (fold countSession ss []))) = spec_usersWhere (\<lambda>l. Q (length l)) ss"
proof -
  let ?al = "fold countSession ss []"
  have d: "distinct (map fst ?al)" by (simp add: distinct_fold_countSession)
  have k: "set (map fst ?al) = set (spec_users ss)"
    using keys_fold_countSession[of ss "[]"] by simp
  have e: "(\<lambda>(u :: string, c). Q c) = (\<lambda>x. Q (snd x))" by auto
  have "length (filter Q (map snd ?al)) = length (filter (\<lambda>(u :: string, c). Q c) ?al)"
    unfolding e by (simp add: filter_map comp_def)
  also have "\<dots> = length (filter (\<lambda>u. Q (the (map_of ?al u))) (map fst ?al))"
    by (rule count_entries[OF d])
  also have "\<dots> = length (filter (\<lambda>u. Q (the (map_of ?al u))) (spec_users ss))"
    by (rule count_distinct_set[OF d distinct_spec_users k])
  also have "\<dots> = length (filter (\<lambda>u. Q (length (spec_sessionsOf u ss))) (spec_users ss))"
    by (rule arg_cong[where f = length], rule filter_cong) (simp_all add: userSessionCount_lookup)
  finally show ?thesis by (simp add: spec_usersWhere_def)
qed

lemma frequency_keys:
  "map fst (calculateSessionFrequency sessions) = [F1_2, F3_5, F6_10, F11_20, F20plus]"
  unfolding calculateSessionFrequency_def Let_def map_fst_fold_incr by simp

lemma frequency_lookup:
  "map_of (calculateSessionFrequency sessions) b
     = Some (spec_usersWhere (\<lambda>l. freqOf (length l) = b) sessions)"
  unfolding calculateSessionFrequency_def Let_def map_of_fold_incr userSessionCount_count
  by (cases b) simp_all

lemma sum_snd_incr:
  "distinct (map fst obj) \<Longrightarrow> k \<in> set (map fst obj) \<Longrightarrow>
   sum_list (map snd (incr k obj)) = sum_list (map snd obj) + 1"
proof (induction obj)
  case Nil
  then show ?case by simp
next
  case (Cons a obj)
  obtain k' v where a: "a = (k', v)" by (cases a)
  show ?case
  proof (cases "k' = k")
    case True
    with Cons.prems a have "k \<notin> fst ` set obj" by auto
    then have "incr k obj = obj"
      unfolding incr_def by (intro map_idI) (auto simp: rev_image_eqI)
    then have "incr k (a # obj) = (k, v + 1) # obj"
      using True a by (simp add: incr_def)
    then show ?thesis using True a by simp
  next
    case False
    with Cons.prems a have "distinct (map fst obj)" "k \<in> set (map fst obj)" by auto
    from Cons.IH[OF this] have "sum_list (map snd (incr k obj)) = sum_list (map snd obj) + 1" .
    moreover have "incr k (a # obj) = a # incr k obj"
      using False a by (simp add: incr_def)
    ultimately show ?thesis by simp
  qed
qed

lemma sum_snd_fold_incr:
  "distinct (map fst obj) \<Longrightarrow> (\<And>x. f x \<in> set (map fst obj)) \<Longrightarrow>
   sum_list (map snd (fold (\<lambda>x. incr (f x)) xs obj)) = sum_list (map snd obj) + length xs"
proof (induction xs arbitrary: obj)
  case Nil
  show ?case by simp
next
  case (Cons x xs)
  have d: "distinct (map fst (incr (f x) obj))" and m: "\<And>y. f y \<in> set (map fst (incr (f x) obj))"
    using Cons.prems by (simp_all only: map_fst_incr)
  show ?case
    unfolding fold_simps comp_def using Cons.IH[OF d m] sum_snd_incr[OF Cons.prems(1) Cons.prems(2)[of x]]
    by simp
qed

lemma length_userSessionCount: "length (fold countSession ss []) = length (spec_users ss)"
proof -
  let ?al = "fold countSession ss []"
  have d: "distinct (map fst ?al)" by (simp add: distinct_fold_countSession)
  have k: "set (map fst ?al) = set (spec_users ss)"
    using keys_fold_countSession[of ss "[]"] by simp
  have "length (map fst ?al) = card (set (map fst ?al))"
    using d by (rule distinct_card[symmetric])
  also have "\<dots> = length (spec_users ss)"
    unfolding k using distinct_spec_users by (rule distinct_card)
  finally show ?thesis by simp
qed

lemma length_userSessionMap: "length (fold pushSession ss []) = length (spec_users ss)"
proof -
  let ?al = "fold pushSession ss []"
  have d: "distinct (map fst ?al)" by (simp add: distinct_fold_pushSession)
  have k: "set (map fst ?al) = set (spec_users ss)"
    using keys_fold_pushSession[of ss "[]"] by simp
  have "length (map fst ?al) = card (set (map fst ?al))"
    using d by (rule distinct_card[symmetric])
  also have "\<dots> = length (spec_users ss)"
    unfolding k using distinct_spec_users by (rule distinct_card)
  finally show ?thesis by simp
qed

lemma frequency_sum:
  "sum_list (map snd (calculateSessionFrequency sessions)) = length (spec_users sessions)"
proof -
  have "sum_list (map snd (calculateSessionFrequency sessions))
        = 0 + length (map snd (fold countSession sessions []))"
    unfolding calculateSessionFrequency_def Let_def
    by (subst sum_snd_fold_incr) (auto simp: freqOf_def)
  then show ?thesis by (simp add: length_userSessionCount)
qed

lemma engagement_sum:
  "sum_list (map snd (calculateUserEngagement sessions since30)) = length (spec_users sessions)"
proof -
  have "\<And>x :: string \<times> session list. tierOf (length (snd x)) \<in> set (map fst [(High, 0::nat), (Medium, 0), (Low, 0), (Inactive, 0)])"
    by (simp add: tierOf_def)
  then have "sum_list (map snd (calculateUserEngagement sessions since30))
        = 0 + length (fold pushSession sessions [])"
    unfolding calculateUserEngagement_def Let_def engagement_fold
    by (subst sum_snd_fold_incr) auto
  then show ?thesis by (simp add: length_userSessionMap)
qed

subsection \<open>The loops of the depth analysis\<close>

lemma fold_distStep:
  "fold (distStep tz) ss (dd, tod) =
     (fold (\<lambda>s. incr (durationLabelOf (numberOr0 (duration s) div 60))) ss dd,
      fold (\<lambda>s. incr (todLabelOf (getHours tz (newDate (start_time s)))))
        (filter (\<lambda>s. truthy_time (start_time s)) ss) tod)"
  by (induction ss arbitrary: dd tod) (simp_all add: distStep_def Let_def)

lemma error_eq: "(e :: error) = RangeError"
  by (cases e) simp

lemma groupStep_ok:
  "start_time s \<noteq> TInvalid \<Longrightarrow> groupStep s (us, ud) = Inr (pushSession s us, addDay s ud)"
  by (cases "start_time s")
     (auto simp: groupStep_def pushSession_def addDay_def spec_dayOf_def Let_def split: option.splits)

lemma foldE_groupStep:
  "(\<forall>s \<in> set ss. start_time s \<noteq> TInvalid) \<Longrightarrow>
   foldE groupStep ss (us, ud) = Inr (fold pushSession ss us, fold addDay ss ud)"
  by (induction ss arbitrary: us ud) (simp_all add: groupStep_ok)

lemma uniqueStep_ok:
  "start_time s \<noteq> TInvalid \<Longrightarrow> uniqueStep s ds = Inr (addUnique s ds)"
  by (cases "start_time s") (auto simp: uniqueStep_def addUnique_def spec_dayOf_def)

lemma foldE_uniqueStep:
  "(\<forall>s \<in> set ss. start_time s \<noteq> TInvalid) \<Longrightarrow>
   foldE uniqueStep ss ds = Inr (fold addUnique ss ds)"
  by (induction ss arbitrary: ds) (simp_all add: uniqueStep_ok)

lemma foldE_uniqueStep_throws:
  "\<exists>s \<in> set ss. start_time s = TInvalid \<Longrightarrow> foldE uniqueStep ss ds = Inl RangeError"
proof (induction ss arbitrary: ds)
  case Nil
  then show ?case by simp
next
  case (Cons s ss)
  show ?case
  proof (cases "start_time s = TInvalid")
    case True
    then show ?thesis by (simp add: uniqueStep_def)
  next
    case False
    with Cons.prems have "\<exists>s \<in> set ss. start_time s = TInvalid" by auto
    from Cons.IH[OF this] show ?thesis
      by (simp add: uniqueStep_ok[OF False])
  qed
qed

lemma calculateSessionDepth_ok:
  assumes "\<forall>s \<in> set sessions. start_time s \<noteq> TInvalid"
  shows "calculateSessionDepth tz sessions =
     Inr \<lparr> durationDistribution =
             fold (\<lambda>s. incr (durationLabelOf (numberOr0 (duration s) div 60))) sessions
               [(D0_5, 0), (D5_15, 0), (D15_30, 0), (D30_60, 0), (D60plus, 0)],
           timeOfDayDistribution =
             fold (\<lambda>s. incr (todLabelOf (getHours tz (newDate (start_time s)))))
               (filter (\<lambda>s. truthy_time (start_time s)) sessions)
               [(Night, 0), (Morning, 0), (Afternoon, 0), (Evening, 0)],
           sessionIntensity =
             fold (\<lambda>(userId, userSessionsList). incr (intensityOf userSessionsList))
               (fold pushSession sessions [])
               [(ShortFrequent, 0), (LongInfrequent, 0), (Balanced, 0), (Shallow, 0)],
           avgSessionsPerDay =
             (if length (fold addUnique sessions []) > 0
              then JStr (toFixed2 (jsDivide (length sessions) (length (fold addUnique sessions []))))
              else JNum 0),
           maxConsecutiveDays = longestStreak (fold addDay sessions []) \<rparr>"
  unfolding calculateSessionDepth_def fold_distStep foldE_groupStep[OF assms] foldE_uniqueStep[OF assms]
  by (simp add: Let_def)

lemma calculateSessionDepth_throws:
  assumes "\<exists>s \<in> set sessions. start_time s = TInvalid"
  shows "calculateSessionDepth tz sessions = Inl RangeError"
  unfolding calculateSessionDepth_def fold_distStep foldE_uniqueStep_throws[OF assms]
  by (auto split: sum.splits intro: error_eq)

lemma calculateSessionDepth_Inr_iff:
  "(\<exists>d. calculateSessionDepth tz sessions = Inr d) \<longleftrightarrow> (\<forall>s \<in> set sessions. start_time s \<noteq> TInvalid)"
  using calculateSessionDepth_ok[of sessions tz] calculateSessionDepth_throws[of sessions tz]
  by (metis Inl_Inr_False)

subsection \<open>Duration distribution\<close>

lemma durationLabelOf_cases:
  "durationLabelOf m = D0_5 \<longleftrightarrow> m \<le> 5"
  "durationLabelOf m = D5_15 \<longleftrightarrow> 5 < m \<and> m \<le> 15"
  "durationLabelOf m = D15_30 \<longleftrightarrow> 15 < m \<and> m \<le> 30"
  "durationLabelOf m = D30_60 \<longleftrightarrow> 30 < m \<and> m \<le> 60"
  "durationLabelOf m = D60plus \<longleftrightarrow> 60 < m"
  by (auto simp: durationLabelOf_def)

lemma depth_fields:
  assumes "calculateSessionDepth tz sessions = Inr d"
  shows "durationDistribution d =
           fold (\<lambda>s. incr (durationLabelOf (numberOr0 (duration s) div 60))) sessions
             [(D0_5, 0), (D5_15, 0), (D15_30, 0), (D30_60, 0), (D60plus, 0)]"
    and "timeOfDayDistribution d =
           fold (\<lambda>s. incr (todLabelOf (getHours tz (newDate (start_time s)))))
             (filter (\<lambda>s. truthy_time (start_time s)) sessions)
             [(Night, 0), (Morning, 0), (Afternoon, 0), (Evening, 0)]"
    and "sessionIntensity d =
           fold (\<lambda>(userId, userSessionsList). incr (intensityOf userSessionsList))
             (fold pushSession sessions [])
             [(ShortFrequent, 0), (LongInfrequent, 0), (Balanced, 0), (Shallow, 0)]"
    and "avgSessionsPerDay d =
           (if length (fold addUnique sessions []) > 0
            then JStr (toFixed2 (jsDivide (length sessions) (length (fold addUnique sessions []))))
            else JNum 0)"
    and "maxConsecutiveDays d = longestStreak (fold addDay sessions [])"
    and "\<forall>s \<in> set sessions. start_time s \<noteq> TInvalid"
proof -
  from assms have ok: "\<forall>s \<in> set sessions. start_time s \<noteq> TInvalid"
    using calculateSessionDepth_Inr_iff by blast
  note eq = calculateSessionDepth_ok[OF ok, of tz]
  from assms eq show "durationDistribution d =
           fold (\<lambda>s. incr (durationLabelOf (numberOr0 (duration s) div 60))) sessions
             [(D0_5, 0), (D5_15, 0), (D15_30, 0), (D30_60, 0), (D60plus, 0)]" by auto
  from assms eq show "timeOfDayDistribution d =
           fold (\<lambda>s. incr (todLabelOf (getHours tz (newDate (start_time s)))))
             (filter (\<lambda>s. truthy_time (start_time s)) sessions)
             [(Night, 0), (Morning, 0), (Afternoon, 0), (Evening, 0)]" by auto
  from assms eq show "sessionIntensity d =
           fold (\<lambda>(userId, userSessionsList). incr (intensityOf userSessionsList))
             (fold pushSession sessions [])
             [(ShortFrequent, 0), (LongInfrequent, 0), (Balanced, 0), (Shallow, 0)]" by auto
  from assms eq show "avgSessionsPerDay d =
           (if length (fold addUnique sessions []) > 0
            then JStr (toFixed2 (jsDivide (length sessions) (length (fold addUnique sessions []))))
            else JNum 0)" by auto
  from assms eq show "maxConsecutiveDays d = longestStreak (fold addDay sessions [])" by auto
  from ok show "\<forall>s \<in> set sessions. start_time s \<noteq> TInvalid" .
qed

lemma duration_lookup:
  assumes "calculateSessionDepth tz sessions = Inr d"
  shows "map_of (durationDistribution d) b
           = Some (length (filter (\<lambda>s. durationLabelOf (spec_minutes s) = b) sessions))"
  unfolding depth_fields(1)[OF assms] map_of_fold_incr spec_minutes_def
  by (cases b) simp_all

lemma duration_keys:
  assumes "calculateSessionDepth tz sessions = Inr d"
  shows "map fst (durationDistribution d) = [D0_5, D5_15, D15_30, D30_60, D60plus]"
  unfolding depth_fields(1)[OF assms] map_fst_fold_incr by simp

lemma duration_sum:
  assumes "calculateSessionDepth tz sessions = Inr d"
  shows "sum_list (map snd (durationDistribution d)) = length sessions"
  unfolding depth_fields(1)[OF assms]
  by (subst sum_snd_fold_incr) (auto simp: durationLabelOf_def)

text \<open>
  Claim C7. The duration distribution takes each session's duration in whole minutes
  (seconds divided by 60, rounded down) and counts the session in one of the five
  ranges: up to 5, above 5 up to 15, above 15 up to 30, above 30 up to 60, above 60.
  Every session is counted in exactly one range and the result always has the five
  labels.
\<close>

theorem durationDistribution_buckets:
  assumes "calculateSessionDepth tz sessions = Inr d"
  shows "map fst (durationDistribution d) = [D0_5, D5_15, D15_30, D30_60, D60plus]
    \<and> map_of (durationDistribution d) D0_5
        = Some (length (filter (\<lambda>s. spec_minutes s \<le> 5) sessions))
    \<and> map_of (durationDistribution d) D5_15
        = Some (length (filter (\<lambda>s. 5 < spec_minutes s \<and> spec_minutes s \<le> 15) sessions))
    \<and> map_of (durationDistribution d) D15_30
        = Some (length (filter (\<lambda>s. 15 < spec_minutes s \<and> spec_minutes s \<le> 30) sessions))
    \<and> map_of (durationDistribution d) D30_60
        = Some (length (filter (\<lambda>s. 30 < spec_minutes s \<and> spec_minutes s \<le> 60) sessions))
    \<and> map_of (durationDistribution d) D60plus
        = Some (length (filter (\<lambda>s. 60 < spec_minutes s) sessions))
    \<and> sum_list (map snd (durationDistribution d)) = length sessions"
  using duration_keys[OF assms] duration_sum[OF assms]
  by (simp add: duration_lookup[OF assms] durationLabelOf_cases)

lemma example_depth:
  "calculateSessionDepth 0
     [\<lparr>user_id = Some ''a'', duration = Some 400, start_time = TValid 0\<rparr>,
      \<lparr>user_id = Some ''a'', duration = None, start_time = TNull\<rparr>,
      \<lparr>user_id = Some ''b'', duration = Some 3600, start_time = TValid 86400000\<rparr>]
   = Inr \<lparr> durationDistribution = [(D0_5, 1), (D5_15, 1), (D15_30, 0), (D30_60, 1), (D60plus, 0)],
           timeOfDayDistribution = [(Night, 2), (Morning, 0), (Afternoon, 0), (Evening, 0)],
           sessionIntensity = [(ShortFrequent, 0), (LongInfrequent, 1), (Balanced, 0), (Shallow, 1)],
           avgSessionsPerDay = JStr ''1.50'',
           maxConsecutiveDays = 1 \<rparr>"
  by code_simp

theorem durationDistribution_buckets_witness:
  "map_of [(D0_5, 1 :: nat), (D5_15, 1), (D15_30, 0), (D30_60, 1), (D60plus, 0)] D5_15
     = Some (length (filter (\<lambda>s. 5 < spec_minutes s \<and> spec_minutes s \<le> 15)
         [\<lparr>user_id = Some ''a'', duration = Some 400, start_time = TValid 0\<rparr>,
          \<lparr>user_id = Some ''a'', duration = None, start_time = TNull\<rparr>,
          \<lparr>user_id = Some ''b'', duration = Some 3600, start_time = TValid 86400000\<rparr>]))"
  using durationDistribution_buckets[OF example_depth] by simp

subsection \<open>Session intensity\<close>

lemma fold_totalDuration:
  "fold (\<lambda>s sum. sum + numberOr0 (duration s)) l acc
     = acc + sum_list (map (\<lambda>s. numberOr0 (duration s)) l)"
  by (induction l arbitrary: acc) simp_all

lemma intensityOf_eq:
  "intensityOf l =
     (if spec_avgDuration l < 300 \<and> length l \<ge> 10 then ShortFrequent
      else if spec_avgDuration l \<ge> 600 \<and> length l < 5 then LongInfrequent
      else if spec_avgDuration l \<ge> 300 \<and> length l \<ge> 5 then Balanced
      else Shallow)"
  by (cases "l = []") (simp_all add: intensityOf_def Let_def fold_totalDuration spec_avgDuration_def)

lemma intensityOf_cases:
  "intensityOf l = ShortFrequent \<longleftrightarrow> spec_avgDuration l < 300 \<and> length l \<ge> 10"
  "intensityOf l = LongInfrequent \<longleftrightarrow> spec_avgDuration l \<ge> 600 \<and> length l < 5"
  "intensityOf l = Balanced \<longleftrightarrow> spec_avgDuration l \<ge> 300 \<and> length l \<ge> 5"
  "intensityOf l = Shallow \<longleftrightarrow>
     \<not> (spec_avgDuration l < 300 \<and> length l \<ge> 10)
     \<and> \<not> (spec_avgDuration l \<ge> 600 \<and> length l < 5)
     \<and> \<not> (spec_avgDuration l \<ge> 300 \<and> length l \<ge> 5)"
  unfolding intensityOf_eq by auto

lemma intensity_fold:
  "fold (\<lambda>(userId, userSessionsList). incr (intensityOf userSessionsList)) al obj
     = fold (\<lambda>x. incr (intensityOf (snd x))) al obj"
  by (rule arg_cong[where f = "\<lambda>f. fold f al obj"]) (auto simp: fun_eq_iff)

lemma intensity_lookup:
  assumes "calculateSessionDepth tz sessions = Inr d"
  shows "map_of (sessionIntensity d) c = Some (spec_usersWhere (\<lambda>l. intensityOf l = c) sessions)"
proof -
  have "length (filter (\<lambda>x. intensityOf (snd x) = c) (fold pushSession sessions []))
        = spec_usersWhere (\<lambda>l. intensityOf l = c) sessions"
    by (rule userSessionMap_count_snd)
  then show ?thesis
    unfolding depth_fields(3)[OF assms] intensity_fold map_of_fold_incr
    by (cases c) simp_all
qed

lemma intensity_keys:
  assumes "calculateSessionDepth tz sessions = Inr d"
  shows "map fst (sessionIntensity d) = [ShortFrequent, LongInfrequent, Balanced, Shallow]"
  unfolding depth_fields(3)[OF assms] intensity_fold map_fst_fold_incr by simp

lemma intensity_sum:
  assumes "calculateSessionDepth tz sessions = Inr d"
  shows "sum_list (map snd (sessionIntensity d)) = length (spec_users sessions)"
proof -
  have "\<And>x :: string \<times> session list. intensityOf (snd x)
          \<in> set (map fst [(ShortFrequent, 0::nat), (LongInfrequent, 0), (Balanced, 0), (Shallow, 0)])"
    by (simp add: intensityOf_eq)
  then have "sum_list (map snd (sessionIntensity d)) = 0 + length (fold pushSession sessions [])"
    unfolding depth_fields(3)[OF assms] intensity_fold
    by (subst sum_snd_fold_incr) auto
  then show ?thesis by (simp add: length_userSessionMap)
qed

text \<open>
  Claim C6. With the average duration of a user's sessions in seconds and the number of
  the user's sessions, the intensity classes are: short-frequent for an average below
  300 with at least 10 sessions, long-infrequent for an average of at least 600 with
  fewer than 5 sessions, balanced for an average of at least 300 with at least 5
  sessions, shallow for every other user. The count of each class is the number of
  users in it and the four counts sum to the number of users, so each user is in
  exactly one class. In particular 15 sessions averaging 200 are short-frequent,
  3 averaging 700 long-infrequent, 6 averaging 400 balanced and 2 averaging 100 shallow.
\<close>

theorem sessionIntensity_classes:
  assumes "calculateSessionDepth tz sessions = Inr d"
  shows "map_of (sessionIntensity d) ShortFrequent
           = Some (spec_usersWhere (\<lambda>l. spec_avgDuration l < 300 \<and> length l \<ge> 10) sessions)
    \<and> map_of (sessionIntensity d) LongInfrequent
           = Some (spec_usersWhere (\<lambda>l. spec_avgDuration l \<ge> 600 \<and> length l < 5) sessions)
    \<and> map_of (sessionIntensity d) Balanced
           = Some (spec_usersWhere (\<lambda>l. spec_avgDuration l \<ge> 300 \<and> length l \<ge> 5) sessions)
    \<and> map_of (sessionIntensity d) Shallow
           = Some (spec_usersWhere (\<lambda>l. \<not> (spec_avgDuration l < 300 \<and> length l \<ge> 10)
                                     \<and> \<not> (spec_avgDuration l \<ge> 600 \<and> length l < 5)
                                     \<and> \<not> (spec_avgDuration l \<ge> 300 \<and> length l \<ge> 5)) sessions)
    \<and> sum_list (map snd (sessionIntensity d)) = length (spec_users sessions)
    \<and> (\<forall>l. length l = 15 \<and> spec_avgDuration l = 200 \<longrightarrow> intensityOf l = ShortFrequent)
    \<and> (\<forall>l. length l = 3 \<and> spec_avgDuration l = 700 \<longrightarrow> intensityOf l = LongInfrequent)
    \<and> (\<forall>l. length l = 6 \<and> spec_avgDuration l = 400 \<longrightarrow> intensityOf l = Balanced)
    \<and> (\<forall>l. length l = 2 \<and> spec_avgDuration l = 100 \<longrightarrow> intensityOf l = Shallow)"
  using intensity_sum[OF assms]
  by (simp add: intensity_lookup[OF assms] intensityOf_cases)

theorem sessionIntensity_classes_witness:
  "map_of [(ShortFrequent, 0 :: nat), (LongInfrequent, 1), (Balanced, 0), (Shallow, 1)] LongInfrequent
     = Some (spec_usersWhere (\<lambda>l. spec_avgDuration l \<ge> 600 \<and> length l < 5)
         [\<lparr>user_id = Some ''a'', duration = Some 400, start_time = TValid 0\<rparr>,
          \<lparr>user_id = Some ''a'', duration = None, start_time = TNull\<rparr>,
          \<lparr>user_id = Some ''b'', duration = Some 3600, start_time = TValid 86400000\<rparr>])
   \<and> intensityOf (replicate 3 \<lparr>user_id = Some ''c'', duration = Some 700, start_time = TNull\<rparr>)
       = LongInfrequent"
proof -
  have a: "length (replicate 3 \<lparr>user_id = Some ''c'', duration = Some 700, start_time = TNull\<rparr>) = 3
     \<and> spec_avgDuration (replicate 3 \<lparr>user_id = Some ''c'', duration = Some 700, start_time = TNull\<rparr>) = 700"
    by code_simp
  show ?thesis
    using sessionIntensity_classes[OF example_depth] a by simp
qed

subsection \<open>All fixed-label distributions\<close>

lemma tod_keys:
  assumes "calculateSessionDepth tz sessions = Inr d"
  shows "map fst (timeOfDayDistribution d) = [Night, Morning, Afternoon, Evening]"
  unfolding depth_fields(2)[OF assms] map_fst_fold_incr by simp

lemma tod_sum:
  assumes "calculateSessionDepth tz sessions = Inr d"
  shows "sum_list (map snd (timeOfDayDistribution d))
           = length (filter (\<lambda>s. truthy_time (start_time s)) sessions)"
  unfolding depth_fields(2)[OF assms]
  by (subst sum_snd_fold_incr) (auto simp: todLabelOf_def split: option.splits)

lemma engagement_keys:
  "map fst (calculateUserEngagement sessions since30) = [High, Medium, Low, Inactive]"
  unfolding calculateUserEngagement_def Let_def engagement_fold map_fst_fold_incr by simp

text \<open>
  Claim C4. Every fixed-label distribution lists all of its labels, and its counts sum
  to the number of rows or users it classifies: the duration distribution to the number
  of sessions, the time-of-day distribution to the number of sessions with a start time,
  the frequency distribution, the intensity classification and the engagement tiers to
  the number of users (distinct non-empty identifiers) of the sessions.
\<close>

theorem distributions_complete:
  assumes "calculateSessionDepth tz sessions = Inr d"
  shows "map fst (durationDistribution d) = [D0_5, D5_15, D15_30, D30_60, D60plus]
    \<and> sum_list (map snd (durationDistribution d)) = length sessions
    \<and> map fst (timeOfDayDistribution d) = [Night, Morning, Afternoon, Evening]
    \<and> sum_list (map snd (timeOfDayDistribution d))
        = length (filter (\<lambda>s. truthy_time (start_time s)) sessions)
    \<and> map fst (calculateSessionFrequency sessions) = [F1_2, F3_5, F6_10, F11_20, F20plus]
    \<and> sum_list (map snd (calculateSessionFrequency sessions)) = length (spec_users sessions)
    \<and> map fst (sessionIntensity d) = [ShortFrequent, LongInfrequent, Balanced, Shallow]
    \<and> sum_list (map snd (sessionIntensity d)) = length (spec_users sessions)
    \<and> map fst (calculateUserEngagement sessions since30) = [High, Medium, Low, Inactive]
    \<and> sum_list (map snd (calculateUserEngagement sessions since30)) = length (spec_users sessions)"
  using duration_keys[OF assms] duration_sum[OF assms] tod_keys[OF assms] tod_sum[OF assms]
    frequency_keys[of sessions] frequency_sum[of sessions]
    intensity_keys[OF assms] intensity_sum[OF assms]
    engagement_keys[of sessions since30] engagement_sum[of sessions since30]
  by simp

theorem distributions_complete_witness:
  "sum_list (map snd [(Night, 2 :: nat), (Morning, 0), (Afternoon, 0), (Evening, 0)])
     = length (filter (\<lambda>s. truthy_time (start_time s))
         [\<lparr>user_id = Some ''a'', duration = Some 400, start_time = TValid 0\<rparr>,
          \<lparr>user_id = Some ''a'', duration = None, start_time = TNull\<rparr>,
          \<lparr>user_id = Some ''b'', duration = Some 3600, start_time = TValid 86400000\<rparr>])
   \<and> sum_list (map snd (calculateSessionFrequency
         [\<lparr>user_id = Some ''a'', duration = Some 400, start_time = TValid 0\<rparr>,
          \<lparr>user_id = Some ''a'', duration = None, start_time = TNull\<rparr>,
          \<lparr>user_id = Some ''b'', duration = Some 3600, start_time = TValid 86400000\<rparr>])) = 2"
  using distributions_complete[OF example_depth] by (simp add: spec_users_def)

subsection \<open>Longest streak of consecutive days\<close>

lemma diffDays_eq: "(parseDate c - parseDate p) div msPerDay = c - p"
proof -
  have "parseDate c - parseDate p = (c - p) * msPerDay"
    by (simp add: parseDate_def algebra_simps)
  then show ?thesis by (simp add: msPerDay_def)
qed

lemma streak_inv_init: "streak_inv {x} x 1 1"
proof -
  have "\<And>a n. (\<forall>k. a \<le> k \<and> k < a + int n \<longrightarrow> k = x) \<Longrightarrow> n \<le> 1"
  proof (rule ccontr)
    fix a :: int and n :: nat
    assume h: "\<forall>k. a \<le> k \<and> k < a + int n \<longrightarrow> k = x" and "\<not> n \<le> 1"
    then have "a = x" "a + 1 = x" by auto
    then show False by simp
  qed
  moreover have "\<exists>a. \<forall>k. a \<le> k \<and> k < a + int 1 \<longrightarrow> k = x"
    by (rule exI[of _ x]) auto
  ultimately show ?thesis
    unfolding streak_inv_def by auto
qed

lemma run_last:
  assumes run: "\<forall>k. a \<le> k \<and> k < a + int n \<longrightarrow> k \<in> insert c P"
    and top: "\<forall>x \<in> P. x < c"
    and notP: "\<not> (\<forall>k. a \<le> k \<and> k < a + int n \<longrightarrow> k \<in> P)"
  shows "a + int n = c + 1"
proof -
  from notP obtain k where k: "a \<le> k" "k < a + int n" "k \<notin> P" by auto
  with run have kc: "k = c" by auto
  have "a + int n - 1 \<in> insert c P" using run k by auto
  then have "a + int n - 1 \<le> c" using top by auto
  with k kc show ?thesis by simp
qed

lemma streak_inv_extend:
  assumes "streak_inv P prev cur mx"
  shows "streak_inv (insert (prev + 1) P) (prev + 1) (cur + 1) (max mx (cur + 1))"
proof -
  let ?c = "prev + 1" and ?P = "insert (prev + 1) P"
  from assms have inP: "prev \<in> P" and top: "\<forall>x \<in> P. x \<le> prev" and c1: "1 \<le> cur" and cm: "cur \<le> mx"
    and cur: "\<forall>k. prev - int cur < k \<and> k \<le> prev \<longrightarrow> k \<in> P" and low: "prev - int cur \<notin> P"
    and ub: "\<forall>a n. (\<forall>k. a \<le> k \<and> k < a + int n \<longrightarrow> k \<in> P) \<longrightarrow> n \<le> mx"
    and ex: "\<exists>a. \<forall>k. a \<le> k \<and> k < a + int mx \<longrightarrow> k \<in> P"
    unfolding streak_inv_def by blast+
  have top': "\<forall>x \<in> P. x < ?c" using top by auto
  have a1: "\<forall>x \<in> ?P. x \<le> ?c" using top by auto
  have a2: "\<forall>k. ?c - int (cur + 1) < k \<and> k \<le> ?c \<longrightarrow> k \<in> ?P"
    using cur by auto
  have a3: "?c - int (cur + 1) \<notin> ?P" using low by auto
  have a4: "\<forall>a n. (\<forall>k. a \<le> k \<and> k < a + int n \<longrightarrow> k \<in> ?P) \<longrightarrow> n \<le> max mx (cur + 1)"
  proof (intro allI impI)
    fix a :: int and n :: nat
    assume run: "\<forall>k. a \<le> k \<and> k < a + int n \<longrightarrow> k \<in> ?P"
    show "n \<le> max mx (cur + 1)"
    proof (cases "\<forall>k. a \<le> k \<and> k < a + int n \<longrightarrow> k \<in> P")
      case True
      with ub show ?thesis by (simp add: le_max_iff_disj)
    next
      case False
      from run_last[OF run top' False] have e: "a + int n = ?c + 1" .
      have "prev - int cur < a"
      proof (rule ccontr)
        assume "\<not> prev - int cur < a"
        then have "a \<le> prev - int cur" "prev - int cur < a + int n" using e by auto
        with run have "prev - int cur \<in> ?P" by blast
        with a3 show False by simp
      qed
      with e have "n \<le> cur + 1" by auto
      then show ?thesis by (simp add: le_max_iff_disj)
    qed
  qed
  have a5: "\<exists>a. \<forall>k. a \<le> k \<and> k < a + int (max mx (cur + 1)) \<longrightarrow> k \<in> ?P"
  proof (cases "cur + 1 \<le> mx")
    case True
    then have "max mx (cur + 1) = mx" by simp
    with ex show ?thesis by auto
  next
    case False
    then have m: "max mx (cur + 1) = cur + 1" by simp
    show ?thesis
      unfolding m using a2 by (intro exI[of _ "?c - int cur"]) auto
  qed
  show ?thesis
    unfolding streak_inv_def using a1 a2 a3 a4 a5 c1 cm by simp
qed

lemma streak_inv_reset:
  assumes "streak_inv P prev cur mx" and gap: "prev + 1 < c"
  shows "streak_inv (insert c P) c 1 mx"
proof -
  let ?P = "insert c P"
  from assms have top: "\<forall>x \<in> P. x \<le> prev" and c1: "1 \<le> cur" and cm: "cur \<le> mx"
    and ub: "\<forall>a n. (\<forall>k. a \<le> k \<and> k < a + int n \<longrightarrow> k \<in> P) \<longrightarrow> n \<le> mx"
    and ex: "\<exists>a. \<forall>k. a \<le> k \<and> k < a + int mx \<longrightarrow> k \<in> P"
    unfolding streak_inv_def by blast+
  have top': "\<forall>x \<in> P. x < c" using top gap by auto
  have a1: "\<forall>x \<in> ?P. x \<le> c" using top' by auto
  have a2: "\<forall>k. c - int 1 < k \<and> k \<le> c \<longrightarrow> k \<in> ?P" by auto
  have a3: "c - int 1 \<notin> ?P" using top gap by auto
  have a4: "\<forall>a n. (\<forall>k. a \<le> k \<and> k < a + int n \<longrightarrow> k \<in> ?P) \<longrightarrow> n \<le> mx"
  proof (intro allI impI)
    fix a :: int and n :: nat
    assume run: "\<forall>k. a \<le> k \<and> k < a + int n \<longrightarrow> k \<in> ?P"
    show "n \<le> mx"
    proof (cases "\<forall>k. a \<le> k \<and> k < a + int n \<longrightarrow> k \<in> P")
      case True
      with ub show ?thesis by simp
    next
      case False
      from run_last[OF run top' False] have e: "a + int n = c + 1" .
      have "n \<le> 1"
      proof (rule ccontr)
        assume "\<not> n \<le> 1"
        then have "a \<le> c - 1" "c - 1 < a + int n" using e by auto
        with run have "c - 1 \<in> ?P" by blast
        with a3 show False by simp
      qed
      with c1 cm show ?thesis by simp
    qed
  qed
  have a5: "\<exists>a. \<forall>k. a \<le> k \<and> k < a + int mx \<longrightarrow> k \<in> ?P"
    using ex by auto
  show ?thesis
    unfolding streak_inv_def using a1 a2 a3 a4 a5 c1 cm by simp
qed

lemma streakLoop_inv:
  "sorted (prev # rest) \<Longrightarrow> streak_inv P prev cur mx \<Longrightarrow>
   \<exists>prev' cur'. streak_inv (P \<union> set rest) prev' cur' (streakLoop (prev # rest) cur mx)"
proof (induction rest arbitrary: prev cur mx P)
  case Nil
  then show ?case by auto
next
  case (Cons c rest)
  from Cons.prems(1) have le: "prev \<le> c" and srt: "sorted (c # rest)" by auto
  from Cons.prems(2) have inP: "prev \<in> P" unfolding streak_inv_def by blast
  have U: "insert c P \<union> set rest = P \<union> set (c # rest)" by auto
  consider (one) "c - prev = 1" | (gap) "c - prev > 1" | (same) "c = prev"
    using le by linarith
  then show ?case
  proof cases
    case one
    then have c: "c = prev + 1" by simp
    from streak_inv_extend[OF Cons.prems(2)]
    have "streak_inv (insert c P) c (cur + 1) (max mx (cur + 1))" unfolding c .
    from Cons.IH[OF srt this] show ?thesis
      unfolding U using one by (simp add: diffDays_eq Let_def)
  next
    case gap
    then have "prev + 1 < c" by simp
    from streak_inv_reset[OF Cons.prems(2) this]
    have "streak_inv (insert c P) c 1 mx" .
    from Cons.IH[OF srt this] show ?thesis
      unfolding U using gap by (simp add: diffDays_eq Let_def)
  next
    case same
    with inP have "insert c P = P" by auto
    with Cons.prems(2) same have "streak_inv (insert c P) c cur mx" by simp
    from Cons.IH[OF srt this] show ?thesis
      unfolding U using same by (simp add: diffDays_eq Let_def)
  qed
qed

lemma userStreak_inv:
  assumes "l \<noteq> []"
  shows "\<exists>prev cur. streak_inv (set l) prev cur (userStreak l)"
proof -
  from assms have "sort l \<noteq> []" by (metis length_0_conv length_sort)
  then obtain x rest where xr: "sort l = x # rest" by (cases "sort l") auto
  have s: "sorted (x # rest)" by (metis sorted_sort xr)
  have "set (sort l) = set l" by simp
  then have "set l = {x} \<union> set rest" unfolding xr by auto
  with streakLoop_inv[OF s streak_inv_init] show ?thesis
    by (simp add: userStreak_def xr)
qed

lemma spec_run_iff:
  "spec_run l a n \<longleftrightarrow> (\<forall>k. a \<le> k \<and> k < a + int n \<longrightarrow> k \<in> set l)"
proof
  assume r: "spec_run l a n"
  show "\<forall>k. a \<le> k \<and> k < a + int n \<longrightarrow> k \<in> set l"
  proof (intro allI impI)
    fix k assume k: "a \<le> k \<and> k < a + int n"
    then have "nat (k - a) \<in> {0..<n}" by auto
    with r have "a + int (nat (k - a)) \<in> set l" unfolding spec_run_def by blast
    with k show "k \<in> set l" by simp
  qed
next
  assume "\<forall>k. a \<le> k \<and> k < a + int n \<longrightarrow> k \<in> set l"
  then show "spec_run l a n" unfolding spec_run_def by auto
qed

lemma userStreak_longest:
  assumes "l \<noteq> []"
  shows "spec_run l a n \<Longrightarrow> n \<le> userStreak l"
    and "\<exists>a. spec_run l a (userStreak l)"
    and "1 \<le> userStreak l"
proof -
  from userStreak_inv[OF assms] obtain prev cur where
    inv: "streak_inv (set l) prev cur (userStreak l)" by blast
  from inv have ub: "\<forall>a n. (\<forall>k. a \<le> k \<and> k < a + int n \<longrightarrow> k \<in> set l) \<longrightarrow> n \<le> userStreak l"
    and ex: "\<exists>a. \<forall>k. a \<le> k \<and> k < a + int (userStreak l) \<longrightarrow> k \<in> set l"
    and one: "1 \<le> cur" "cur \<le> userStreak l"
    unfolding streak_inv_def by blast+
  show "spec_run l a n \<Longrightarrow> n \<le> userStreak l" using ub by (simp add: spec_run_iff)
  show "\<exists>a. spec_run l a (userStreak l)" using ex by (simp add: spec_run_iff)
  show "1 \<le> userStreak l" using one by simp
qed

lemma spec_run_cong: "set l = set l' \<Longrightarrow> spec_run l a n = spec_run l' a n"
  by (simp add: spec_run_def)

lemma spec_userDates_Cons:
  "spec_userDates u (s # ss) =
     (if user_id s = Some u then (case spec_dayOf s of None \<Rightarrow> [] | Some d \<Rightarrow> [d]) else [])
     @ spec_userDates u ss"
  by (simp add: spec_userDates_def spec_sessionsOf_def List.map_filter_simps split: option.splits)

lemma spec_userDates_Nil: "spec_userDates u [] = []"
  by (simp add: spec_userDates_def spec_sessionsOf_def List.map_filter_simps)

lemma map_of_addDay:
  "map_of (addDay s m) u =
     (if user_id s = Some u \<and> u \<noteq> [] \<and> spec_dayOf s \<noteq> None
      then Some (setAdd (the (spec_dayOf s)) (case map_of m u of None \<Rightarrow> [] | Some l \<Rightarrow> l))
      else map_of m u)"
  by (auto simp: addDay_def addTo_eq AList.update_conv' split: option.splits)

lemma set_setAdd: "set (setAdd x xs) = insert x (set xs)"
  by (auto simp: setAdd_def)

lemma setAdd_nonempty: "setAdd x xs \<noteq> []"
  by (auto simp: setAdd_def)

lemma distinct_addDay: "distinct (map fst m) \<Longrightarrow> distinct (map fst (addDay s m))"
  by (auto simp: addDay_def addTo_eq AList.distinct_update split: option.splits)

lemma distinct_fold_addDay: "distinct (map fst m) \<Longrightarrow> distinct (map fst (fold addDay ss m))"
  by (induction ss arbitrary: m) (simp_all add: distinct_addDay)

lemma dates_addDay:
  "set (case map_of (addDay s m) u of None \<Rightarrow> [] | Some l \<Rightarrow> l) =
     set (case map_of m u of None \<Rightarrow> [] | Some l \<Rightarrow> l)
     \<union> (if user_id s = Some u \<and> u \<noteq> []
         then set (case spec_dayOf s of None \<Rightarrow> [] | Some d \<Rightarrow> [d]) else {})"
  by (cases "spec_dayOf s"; cases "map_of m u") (auto simp: map_of_addDay set_setAdd)

lemma dates_fold_addDay:
  "set (case map_of (fold addDay ss m) u of None \<Rightarrow> [] | Some l \<Rightarrow> l) =
     set (case map_of m u of None \<Rightarrow> [] | Some l \<Rightarrow> l)
     \<union> (if u = [] then {} else set (spec_userDates u ss))"
proof (induction ss arbitrary: m)
  case Nil
  show ?case by (simp add: spec_userDates_Nil)
next
  case (Cons s ss)
  have step: "fold addDay (s # ss) m = fold addDay ss (addDay s m)" by simp
  show ?case
    apply (simp only: step Cons.IH dates_addDay)
    apply (simp only: spec_userDates_Cons)
    apply (cases "u = []")
     apply simp
    apply (cases "user_id s = Some u")
     apply (simp add: Un_assoc)
    apply simp
    done
qed

lemma good_fold_addDay:
  "(\<And>u l. map_of m u = Some l \<Longrightarrow> u \<noteq> [] \<and> l \<noteq> []) \<Longrightarrow>
   map_of (fold addDay ss m) u = Some l \<Longrightarrow> u \<noteq> [] \<and> l \<noteq> []"
proof (induction ss arbitrary: m)
  case Nil
  then show ?case by simp
next
  case (Cons s ss)
  have "\<And>u l. map_of (addDay s m) u = Some l \<Longrightarrow> u \<noteq> [] \<and> l \<noteq> []"
    using Cons.prems(1) by (auto simp: map_of_addDay setAdd_nonempty split: if_splits)
  from Cons.IH[OF this] Cons.prems(2) show ?case by simp
qed

lemma userDays_entry:
  assumes "(u, l) \<in> set (fold addDay ss [])"
  shows "u \<in> set (spec_users ss) \<and> l \<noteq> [] \<and> set l = set (spec_userDates u ss)"
proof -
  have d: "distinct (map fst (fold addDay ss []))" by (simp add: distinct_fold_addDay)
  with assms have m: "map_of (fold addDay ss []) u = Some l" by simp
  from good_fold_addDay[OF _ m] have ne: "u \<noteq> []" "l \<noteq> []" by simp_all
  from dates_fold_addDay[of ss "[]" u] m ne have s: "set l = set (spec_userDates u ss)" by simp
  with ne have "spec_userDates u ss \<noteq> []" by auto
  then have "spec_sessionsOf u ss \<noteq> []"
    by (auto simp: spec_userDates_def List.map_filter_simps)
  then have "Some u \<in> user_id ` set ss"
    by (auto simp: spec_sessionsOf_def filter_empty_conv image_iff) metis
  with ne s show ?thesis by (simp add: spec_users_iff)
qed

lemma userDays_has:
  assumes "u \<noteq> []" "spec_userDates u ss \<noteq> []"
  shows "\<exists>l. (u, l) \<in> set (fold addDay ss [])"
proof -
  from dates_fold_addDay[of ss "[]" u] assms
  have "set (case map_of (fold addDay ss []) u of None \<Rightarrow> [] | Some l \<Rightarrow> l) \<noteq> {}" by simp
  then obtain l where "map_of (fold addDay ss []) u = Some l"
    by (cases "map_of (fold addDay ss []) u") auto
  then show ?thesis by (auto dest: map_of_SomeD)
qed

lemma fold_max_streak:
  "acc \<le> fold (\<lambda>(userId, datesSet) maxConsecutive. max maxConsecutive (userStreak datesSet)) ud acc"
  "(u, l) \<in> set ud \<Longrightarrow>
     userStreak l \<le> fold (\<lambda>(userId, datesSet) maxConsecutive. max maxConsecutive (userStreak datesSet)) ud acc"
  "fold (\<lambda>(userId, datesSet) maxConsecutive. max maxConsecutive (userStreak datesSet)) ud acc = acc
   \<or> (\<exists>(u, l) \<in> set ud.
        fold (\<lambda>(userId, datesSet) maxConsecutive. max maxConsecutive (userStreak datesSet)) ud acc
          = userStreak l)"
proof (induction ud arbitrary: acc)
  case Nil
  { case 1 show ?case by simp }
  { case 2 then show ?case by simp }
  { case 3 show ?case by simp }
next
  case (Cons p ud)
  obtain u' l' where p: "p = (u', l')" by (cases p)
  { case 1
    show ?case using Cons.IH(1)[of "max acc (userStreak l')"] by (simp add: p) }
  { case 2
    then show ?case
      using Cons.IH(1)[of "max acc (userStreak l')"] Cons.IH(2)[of "max acc (userStreak l')"]
      by (auto simp: p) }
  { case 3
    show ?case
      using Cons.IH(3)[of "max acc (userStreak l')"]
      by (auto simp: p max_def split: if_splits) }
qed

lemma longestStreak_upper:
  "(u, l) \<in> set ud \<Longrightarrow> userStreak l \<le> longestStreak ud"
  unfolding longestStreak_def by (rule fold_max_streak(2))

lemma longestStreak_attained:
  "longestStreak ud \<noteq> 0 \<Longrightarrow> \<exists>(u, l) \<in> set ud. longestStreak ud = userStreak l"
  unfolding longestStreak_def using fold_max_streak(3)[of ud 0] by auto

lemma dayOf_within:
  "0 \<le> t \<Longrightarrow> t < msPerDay \<Longrightarrow> (parseDate D + t) div msPerDay = D"
  by (simp add: parseDate_def msPerDay_def)

lemma dayOf_parseDate: "parseDate D div msPerDay = D"
  by (simp add: parseDate_def msPerDay_def)

lemma streak_upper:
  assumes "calculateSessionDepth tz sessions = Inr d"
    and u: "u \<in> set (spec_users sessions)" and run: "spec_run (spec_userDates u sessions) a n"
  shows "n \<le> maxConsecutiveDays d"
proof (cases "n = 0")
  case True
  then show ?thesis by simp
next
  case False
  with run have "a + int 0 \<in> set (spec_userDates u sessions)"
    unfolding spec_run_def by (meson atLeastLessThan_iff le0 not_gr_zero)
  then have ne: "spec_userDates u sessions \<noteq> []" by auto
  from u have "u \<noteq> []" by (rule spec_users_nonempty)
  from userDays_has[OF this ne] obtain l where l: "(u, l) \<in> set (fold addDay sessions [])" by blast
  from userDays_entry[OF l] have lne: "l \<noteq> []" and s: "set l = set (spec_userDates u sessions)"
    by simp_all
  from run have "spec_run l a n" using spec_run_cong[OF s] by simp
  from userStreak_longest(1)[OF lne this] longestStreak_upper[OF l]
  show ?thesis unfolding depth_fields(5)[OF assms(1)] by simp
qed

lemma streak_attained:
  assumes "calculateSessionDepth tz sessions = Inr d" and "maxConsecutiveDays d \<noteq> 0"
  shows "\<exists>u \<in> set (spec_users sessions). \<exists>a. spec_run (spec_userDates u sessions) a (maxConsecutiveDays d)"
proof -
  let ?ud = "fold addDay sessions []"
  from assms(2) have "longestStreak ?ud \<noteq> 0" unfolding depth_fields(5)[OF assms(1)] .
  from longestStreak_attained[OF this] obtain u l where
    l: "(u, l) \<in> set ?ud" and e: "longestStreak ?ud = userStreak l" by auto
  from userDays_entry[OF l] have u: "u \<in> set (spec_users sessions)" and lne: "l \<noteq> []"
    and s: "set l = set (spec_userDates u sessions)" by simp_all
  from userStreak_longest(2)[OF lne] obtain a where "spec_run l a (userStreak l)" by blast
  then have "spec_run (spec_userDates u sessions) a (maxConsecutiveDays d)"
    using spec_run_cong[OF s] e unfolding depth_fields(5)[OF assms(1)] by simp
  with u show ?thesis by blast
qed

lemma streak_zero_iff:
  assumes "calculateSessionDepth tz sessions = Inr d"
  shows "maxConsecutiveDays d = 0 \<longleftrightarrow> (\<forall>u \<in> set (spec_users sessions). spec_userDates u sessions = [])"
proof
  assume z: "maxConsecutiveDays d = 0"
  show "\<forall>u \<in> set (spec_users sessions). spec_userDates u sessions = []"
  proof (intro ballI, rule ccontr)
    fix u assume u: "u \<in> set (spec_users sessions)" and ne: "spec_userDates u sessions \<noteq> []"
    then obtain x where "x \<in> set (spec_userDates u sessions)" by (cases "spec_userDates u sessions") auto
    then have "spec_run (spec_userDates u sessions) x 1" by (simp add: spec_run_def)
    from streak_upper[OF assms u this] z show False by simp
  qed
next
  assume e: "\<forall>u \<in> set (spec_users sessions). spec_userDates u sessions = []"
  show "maxConsecutiveDays d = 0"
  proof (rule ccontr)
    assume "maxConsecutiveDays d \<noteq> 0"
    from streak_attained[OF assms this] e obtain a where "spec_run [] a (maxConsecutiveDays d)" by auto
    with \<open>maxConsecutiveDays d \<noteq> 0\<close> show False by (auto simp: spec_run_def)
  qed
qed

lemma map_sum_depth:
  "\<forall>s \<in> set sessions. start_time s \<noteq> TInvalid \<Longrightarrow>
   map_sum id maxConsecutiveDays (calculateSessionDepth tz sessions)
     = Inr (longestStreak (fold addDay sessions []))"
  by (simp add: calculateSessionDepth_ok)

lemma streak_example_gap:
  "u \<noteq> [] \<Longrightarrow>
   map_sum id maxConsecutiveDays (calculateSessionDepth tz
     (map (\<lambda>x. \<lparr>user_id = Some u, duration = dur, start_time = TValid (parseDate x)\<rparr>)
        [D, D + 1, D + 2, D + 5])) = Inr 3"
  by (subst map_sum_depth)
     (simp_all add: longestStreak_def userStreak_def addDay_def addTo_eq spec_dayOf_def
        dayOf_parseDate setAdd_def diffDays_eq Let_def)

lemma streak_example_same_day:
  "u \<noteq> [] \<Longrightarrow>
   map_sum id maxConsecutiveDays (calculateSessionDepth tz
     [\<lparr>user_id = Some u, duration = dur, start_time = TValid (parseDate D)\<rparr>,
      \<lparr>user_id = Some u, duration = dur', start_time = TValid (parseDate D + 3600000)\<rparr>]) = Inr 1"
proof -
  assume u: "u \<noteq> []"
  have h: "(parseDate D + 3600000) div msPerDay = D"
    by (rule dayOf_within) (simp_all add: msPerDay_def)
  show ?thesis
    using u
    by (subst map_sum_depth)
       (simp_all add: longestStreak_def userStreak_def addDay_def addTo_eq spec_dayOf_def
          dayOf_parseDate h setAdd_def diffDays_eq Let_def)
qed

lemma streak_example_empty:
  "map_sum id maxConsecutiveDays (calculateSessionDepth tz []) = Inr 0"
  by (subst map_sum_depth) (simp_all add: longestStreak_def)

text \<open>
  Claim C1. The reported \<open>maxConsecutiveDays\<close> is the length of the longest run of
  consecutive calendar dates among the dates of any single user: no user has a longer
  run of dates each one day after the previous, and unless the value is 0 some user has
  a run of exactly that length; several sessions of a user on one date count as one
  date. The value is 0 exactly when no user has a session with a start time. For one
  user with sessions on the dates \<open>D\<close>, \<open>D + 1\<close>, \<open>D + 2\<close>, \<open>D + 5\<close> it is 3, for two
  sessions on the same date it is 1, and for no sessions it is 0.
\<close>

theorem maxConsecutiveDays_longest_run:
  assumes "calculateSessionDepth tz sessions = Inr d"
  shows "(\<forall>u \<in> set (spec_users sessions). \<forall>a n.
            spec_run (spec_userDates u sessions) a n \<longrightarrow> n \<le> maxConsecutiveDays d)
    \<and> (maxConsecutiveDays d \<noteq> 0 \<longrightarrow>
         (\<exists>u \<in> set (spec_users sessions). \<exists>a.
            spec_run (spec_userDates u sessions) a (maxConsecutiveDays d)))
    \<and> (maxConsecutiveDays d = 0 \<longleftrightarrow>
         (\<forall>u \<in> set (spec_users sessions). spec_userDates u sessions = []))
    \<and> (\<forall>u D dur. u \<noteq> [] \<longrightarrow>
         map_sum id maxConsecutiveDays (calculateSessionDepth tz
           (map (\<lambda>x. \<lparr>user_id = Some u, duration = dur, start_time = TValid (parseDate x)\<rparr>)
              [D, D + 1, D + 2, D + 5])) = Inr 3)
    \<and> (\<forall>u D dur dur'. u \<noteq> [] \<longrightarrow>
         map_sum id maxConsecutiveDays (calculateSessionDepth tz
           [\<lparr>user_id = Some u, duration = dur, start_time = TValid (parseDate D)\<rparr>,
            \<lparr>user_id = Some u, duration = dur', start_time = TValid (parseDate D + 3600000)\<rparr>])
         = Inr 1)
    \<and> map_sum id maxConsecutiveDays (calculateSessionDepth tz []) = Inr 0"
  using streak_upper[OF assms] streak_attained[OF assms] streak_zero_iff[OF assms]
    streak_example_gap[of _ tz] streak_example_same_day[of _ tz] streak_example_empty[of tz]
  by blast

theorem maxConsecutiveDays_longest_run_witness:
  "(\<exists>u \<in> set (spec_users
         [\<lparr>user_id = Some ''a'', duration = Some 400, start_time = TValid 0\<rparr>,
          \<lparr>user_id = Some ''a'', duration = None, start_time = TNull\<rparr>,
          \<lparr>user_id = Some ''b'', duration = Some 3600, start_time = TValid 86400000\<rparr>]).
      \<exists>a. spec_run (spec_userDates u
         [\<lparr>user_id = Some ''a'', duration = Some 400, start_time = TValid 0\<rparr>,
          \<lparr>user_id = Some ''a'', duration = None, start_time = TNull\<rparr>,
          \<lparr>user_id = Some ''b'', duration = Some 3600, start_time = TValid 86400000\<rparr>]) a 1)
   \<and> map_sum id maxConsecutiveDays (calculateSessionDepth 0
         (map (\<lambda>x. \<lparr>user_id = Some ''a'', duration = None, start_time = TValid (parseDate x)\<rparr>)
            [10, 10 + 1, 10 + 2, 10 + 5])) = Inr 3"
proof -
  note t = maxConsecutiveDays_longest_run[OF example_depth]
  have ne: "''a'' \<noteq> []" by simp
  from t have "\<forall>u D dur. u \<noteq> [] \<longrightarrow>
         map_sum id maxConsecutiveDays (calculateSessionDepth 0
           (map (\<lambda>x. \<lparr>user_id = Some u, duration = dur, start_time = TValid (parseDate x)\<rparr>)
              [D, D + 1, D + 2, D + 5])) = Inr 3" by blast
  with ne have "map_sum id maxConsecutiveDays (calculateSessionDepth 0
         (map (\<lambda>x. \<lparr>user_id = Some ''a'', duration = None, start_time = TValid (parseDate x)\<rparr>)
            [10, 10 + 1, 10 + 2, 10 + 5])) = Inr 3" by blast
  moreover from t have "\<exists>u \<in> set (spec_users
         [\<lparr>user_id = Some ''a'', duration = Some 400, start_time = TValid 0\<rparr>,
          \<lparr>user_id = Some ''a'', duration = None, start_time = TNull\<rparr>,
          \<lparr>user_id = Some ''b'', duration = Some 3600, start_time = TValid 86400000\<rparr>]).
      \<exists>a. spec_run (spec_userDates u
         [\<lparr>user_id = Some ''a'', duration = Some 400, start_time = TValid 0\<rparr>,
          \<lparr>user_id = Some ''a'', duration = None, start_time = TNull\<rparr>,
          \<lparr>user_id = Some ''b'', duration = Some 3600, start_time = TValid 86400000\<rparr>]) a 1"
    by simp
  ultimately show ?thesis by blast
qed

subsection \<open>Division in double precision\<close>

lemma roundHalfEven_near: "\<bar>of_int (roundHalfEven x) - x\<bar> \<le> 1 / 2"
proof -
  have 1: "of_int \<lfloor>x\<rfloor> \<le> x" and 2: "x < of_int \<lfloor>x\<rfloor> + 1" by linarith+
  show ?thesis
    unfolding roundHalfEven_def Let_def using 1 2 by (auto simp: abs_le_iff) 
qed

lemma bitlen_powi:
  assumes "0 < x"
  shows "(2::rat) powi (bitlen x - 1) \<le> of_int x" and "of_int x < (2::rat) powi bitlen x"
proof -
  from bitlen_bounds[OF assms] have lo: "2 ^ nat (bitlen x - 1) \<le> x" and hi: "x < 2 ^ nat (bitlen x)"
    by simp_all
  from assms have b1: "1 \<le> bitlen x" by (simp add: bitlen_alt_def)
  have "(2::rat) powi (bitlen x - 1) = 2 ^ nat (bitlen x - 1)"
    using b1 by (simp add: power_int_def)
  also have "\<dots> = of_int (2 ^ nat (bitlen x - 1))" by simp
  also have "\<dots> \<le> of_int x" using lo by (simp only: of_int_le_iff)
  finally show "(2::rat) powi (bitlen x - 1) \<le> of_int x" .
  have "(of_int x :: rat) < of_int (2 ^ nat (bitlen x))" using hi by (simp only: of_int_less_iff)
  also have "\<dots> = 2 powi bitlen x"
    using b1 by (simp add: power_int_def)
  finally show "of_int x < (2::rat) powi bitlen x" .
qed

lemma quotient_exponent:
  assumes a: "0 < a" and b: "0 < b"
  defines "q \<equiv> (of_nat a / of_nat b :: rat)"
  defines "k \<equiv> bitlen (int a) - bitlen (int b)"
  shows "2 powi (k - 1) \<le> q" and "q < 2 powi (k + 1)"
proof -
  have A: "(2::rat) powi (bitlen (int a) - 1) \<le> of_nat a" "of_nat a < (2::rat) powi bitlen (int a)"
    using bitlen_powi[of "int a"] a by simp_all
  have B: "(2::rat) powi (bitlen (int b) - 1) \<le> of_nat b" "of_nat b < (2::rat) powi bitlen (int b)"
    using bitlen_powi[of "int b"] b by simp_all
  have bpos: "(0::rat) < of_nat b" using b by simp
  have e1: "(2::rat) powi (k - 1) * 2 powi bitlen (int b) = 2 powi (bitlen (int a) - 1)"
    unfolding k_def by (simp add: power_int_add[symmetric])
  have "(2::rat) powi (k - 1) * of_nat b \<le> 2 powi (k - 1) * 2 powi bitlen (int b)"
    using B(2) by (intro mult_left_mono) simp_all
  also have "\<dots> \<le> of_nat a" unfolding e1 by (rule A(1))
  finally show "2 powi (k - 1) \<le> q"
    unfolding q_def using bpos by (simp add: pos_le_divide_eq)
  have e2: "(2::rat) powi (k + 1) * 2 powi (bitlen (int b) - 1) = 2 powi bitlen (int a)"
    unfolding k_def by (simp add: power_int_add[symmetric])
  have "of_nat a < (2::rat) powi bitlen (int a)" by (rule A(2))
  also have "\<dots> \<le> 2 powi (k + 1) * of_nat b"
    unfolding e2[symmetric] using B(1) by (intro mult_left_mono) simp_all
  finally show "q < 2 powi (k + 1)"
    unfolding q_def using bpos by (simp add: pos_divide_less_eq)
qed

lemma jsDivide_exponent:
  assumes a: "0 < a" and b: "0 < b"
  obtains l where "2 powi l \<le> (of_nat a / of_nat b :: rat)"
    and "(of_nat a / of_nat b :: rat) < 2 powi (l + 1)"
    and "jsDivide a b
           = of_int (roundHalfEven ((of_nat a / of_nat b) / 2 powi (l - 52))) * 2 powi (l - 52)"
proof -
  let ?q = "of_nat a / of_nat b :: rat"
  let ?k = "bitlen (int a) - bitlen (int b)"
  let ?l = "if 2 powi ?k \<le> ?q then ?k else ?k - 1"
  note qe = quotient_exponent[OF a b]
  have 1: "2 powi ?l \<le> ?q" using qe(1) by simp
  have 2: "?q < 2 powi (?l + 1)" using qe(2) by (auto simp: not_le)
  have 3: "jsDivide a b = of_int (roundHalfEven (?q / 2 powi (?l - 52))) * 2 powi (?l - 52)"
    using a by (simp add: jsDivide_def Let_def)
  from that[OF 1 2 3] show thesis .
qed

lemma jsDivide_error:
  assumes a: "0 < a" and b: "0 < b"
  shows "\<bar>jsDivide a b - of_nat a / of_nat b\<bar> \<le> (of_nat a / of_nat b) / 2 ^ 53"
proof -
  let ?q = "of_nat a / of_nat b :: rat"
  from jsDivide_exponent[OF a b] obtain l where
    lo: "2 powi l \<le> ?q" and js: "jsDivide a b
           = of_int (roundHalfEven (?q / 2 powi (l - 52))) * 2 powi (l - 52)" by blast
  let ?p = "(2::rat) powi (l - 52)"
  let ?n = "roundHalfEven (?q / ?p)"
  have pp: "0 < ?p" by simp
  have "jsDivide a b - ?q = (of_int ?n - ?q / ?p) * ?p"
    unfolding js using pp by (simp add: field_simps)
  then have "\<bar>jsDivide a b - ?q\<bar> = \<bar>of_int ?n - ?q / ?p\<bar> * ?p"
    using pp by (simp add: abs_mult)
  also have "\<dots> \<le> 1 / 2 * ?p"
    using roundHalfEven_near[of "?q / ?p"] pp by (intro mult_right_mono) simp_all
  finally have 1: "\<bar>jsDivide a b - ?q\<bar> \<le> 1 / 2 * ?p" .
  have pe: "?p = 2 powi l / 2 ^ 52" by (simp add: power_int_diff)
  have "1 / 2 * ?p = (2::rat) powi l / 2 ^ 53" unfolding pe by simp
  also have "\<dots> \<le> ?q / 2 ^ 53" using lo by (simp add: divide_right_mono)
  finally show ?thesis using 1 by linarith
qed

lemma jsDivide_nonneg: "0 \<le> jsDivide a b"
proof (cases "a = 0")
  case True
  then show ?thesis by (simp add: jsDivide_def)
next
  case False
  have "0 \<le> roundHalfEven x" if "0 \<le> x" for x :: rat
  proof -
    from that have "0 \<le> \<lfloor>x\<rfloor>" by simp
    then show ?thesis unfolding roundHalfEven_def Let_def by auto
  qed
  then show ?thesis
    using False by (simp add: jsDivide_def Let_def)
qed

subsection \<open>Average sessions per day\<close>

lemma decimal_nonempty: "decimal n \<noteq> []"
  by (subst decimal.simps) simp

lemma decimal_digit: "n < 10 \<Longrightarrow> decimal n = [''0123456789'' ! n]"
  by (subst decimal.simps) simp

lemma decimal_two: "10 \<le> n \<Longrightarrow> decimal n = decimal (n div 10) @ [''0123456789'' ! (n mod 10)]"
  by (subst decimal.simps) simp

lemma toFixedDigits_eq:
  "toFixedDigits x =
     (let n = nat \<lfloor>x * 100 + 1 / 2\<rfloor>
      in decimal (n div 100) @ ''.''
         @ [''0123456789'' ! (n div 10 mod 10), ''0123456789'' ! (n mod 10)])"
proof -
  define n where "n = nat \<lfloor>x * 100 + 1 / 2\<rfloor>"
  consider (a) "n < 10" | (b) "10 \<le> n" "n < 100" | (c) "100 \<le> n" by linarith
  then have "(let m = decimal n; m' = replicate (3 - length m) (CHR ''0'') @ m
              in take (length m' - 2) m' @ ''.'' @ drop (length m' - 2) m')
           = decimal (n div 100) @ ''.''
             @ [''0123456789'' ! (n div 10 mod 10), ''0123456789'' ! (n mod 10)]"
  proof cases
    case a
    then have "n div 100 = 0" "n div 10 = 0" "n mod 10 = n" by simp_all
    then show ?thesis
      using a by (simp add: decimal_digit Let_def numeral_2_eq_2)
  next
    case b
    then have d: "n div 100 = 0" "n div 10 < 10" "n div 10 mod 10 = n div 10" by simp_all
    have "decimal n = [''0123456789'' ! (n div 10), ''0123456789'' ! (n mod 10)]"
      using decimal_two[OF b(1)] decimal_digit[OF d(2)] by simp
    then show ?thesis
      using d by (simp add: decimal_digit Let_def)
  next
    case c
    then have t: "10 \<le> n" "10 \<le> n div 10" by simp_all
    have dd: "n div 10 div 10 = n div 100" by (simp add: div_mult2_eq)
    have "decimal n = decimal (n div 100)
            @ [''0123456789'' ! (n div 10 mod 10), ''0123456789'' ! (n mod 10)]"
      using decimal_two[OF t(1)] decimal_two[OF t(2)] dd by simp
    moreover have "length (decimal (n div 100)) \<ge> 1"
      using decimal_nonempty[of "n div 100"] by (cases "decimal (n div 100)") auto
    ultimately show ?thesis
      by (simp add: Let_def)
  qed
  then show ?thesis
    unfolding toFixedDigits_def n_def[symmetric] by (simp add: Let_def)
qed

lemma round_hundredths:
  assumes "0 \<le> (x :: rat)"
  shows "\<bar>of_nat (nat \<lfloor>x * 100 + 1 / 2\<rfloor>) / 100 - x\<bar> \<le> 1 / 200"
proof -
  let ?f = "\<lfloor>x * 100 + 1 / 2\<rfloor>"
  have nn: "0 \<le> ?f" using assms by simp
  then have e: "(of_nat (nat ?f) :: rat) = of_int ?f" by simp
  define F where "F = (of_int ?f :: rat)"
  have 1: "F \<le> x * 100 + 1 / 2" unfolding F_def by (rule of_int_floor_le)
  have 2: "x * 100 + 1 / 2 < F + 1" unfolding F_def by linarith
  have "F / 100 - x \<le> 1 / 200" using 1 by linarith
  moreover have "- (1 / 200) \<le> F / 100 - x" using 2 by linarith
  ultimately have "\<bar>F / 100 - x\<bar> \<le> 1 / 200" by linarith
  then show ?thesis unfolding e F_def .
qed

lemma set_fold_addUnique:
  "set (fold addUnique ss ds) = set ds \<union> set (List.map_filter spec_dayOf ss)"
  by (induction ss arbitrary: ds)
     (auto simp: addUnique_def set_setAdd List.map_filter_simps split: option.splits)

lemma distinct_setAdd: "distinct xs \<Longrightarrow> distinct (setAdd x xs)"
  by (simp add: setAdd_def)

lemma distinct_fold_addUnique: "distinct ds \<Longrightarrow> distinct (fold addUnique ss ds)"
  by (induction ss arbitrary: ds) (auto simp: addUnique_def distinct_setAdd split: option.splits)

lemma length_uniqueDays: "length (fold addUnique ss []) = length (spec_activeDays ss)"
proof -
  have "length (fold addUnique ss []) = card (set (fold addUnique ss []))"
    by (rule distinct_card[symmetric]) (simp add: distinct_fold_addUnique)
  also have "\<dots> = card (set (spec_activeDays ss))"
    by (simp add: set_fold_addUnique spec_activeDays_def)
  also have "\<dots> = length (spec_activeDays ss)"
    by (rule distinct_card) (simp add: spec_activeDays_def)
  finally show ?thesis .
qed

lemma avg_value:
  assumes "calculateSessionDepth tz sessions = Inr d"
  shows "avgSessionsPerDay d =
           (if spec_activeDays sessions = [] then JNum 0
            else JStr (toFixed2 (jsDivide (length sessions) (length (spec_activeDays sessions)))))"
  unfolding depth_fields(4)[OF assms] length_uniqueDays by simp

lemma toFixed2_two: "toFixed2 (jsDivide 10 5) = ''2.00''"
  by code_simp

lemma toFixed2_below_tie: "toFixed2 (jsDivide 41 40) = ''1.02''"
  by code_simp

lemma toFixed2_nonneg:
  assumes "0 \<le> x"
  shows "toFixed2 x = decimal (nat \<lfloor>x * 100 + 1 / 2\<rfloor> div 100) @ ''.''
           @ [''0123456789'' ! (nat \<lfloor>x * 100 + 1 / 2\<rfloor> div 10 mod 10),
              ''0123456789'' ! (nat \<lfloor>x * 100 + 1 / 2\<rfloor> mod 10)]"
  using assms by (simp add: toFixed2_def toFixedDigits_eq Let_def)

lemma activeDays_sessions: "spec_activeDays sessions \<noteq> [] \<Longrightarrow> sessions \<noteq> []"
  by (auto simp: spec_activeDays_def List.map_filter_simps)

text \<open>
  Claim C3, as the code has it. On every collection of sessions whose start times are
  missing or parse, the analysis returns a result. Without an active day its
  \<open>avgSessionsPerDay\<close> is the number 0. With active days it is the string that
  \<^verbatim>\<open>toFixed(2)\<close> gives for the double quotient of the number of sessions by the number
  of distinct active days: the integer part, a point and two digits of the hundredth
  nearest to that double, which is within a relative \<open>2 ^ 53\<close>-th of the exact quotient.
  Ten sessions on five distinct days give the string \<^verbatim>\<open>"2.00"\<close>; 41 sessions on 40
  days give \<^verbatim>\<open>"1.02"\<close>, the double lying below 1.025.
\<close>

theorem avgSessionsPerDay_fixed2:
  assumes "\<forall>s \<in> set sessions. start_time s \<noteq> TInvalid"
  shows "\<exists>d. calculateSessionDepth tz sessions = Inr d
    \<and> (spec_activeDays sessions = [] \<longrightarrow> avgSessionsPerDay d = JNum 0)
    \<and> (spec_activeDays sessions \<noteq> [] \<longrightarrow>
         (let q = (of_nat (length sessions) / of_nat (length (spec_activeDays sessions)) :: rat);
              x = jsDivide (length sessions) (length (spec_activeDays sessions));
              n = nat \<lfloor>x * 100 + 1 / 2\<rfloor>
          in avgSessionsPerDay d =
               JStr (decimal (n div 100) @ ''.''
                     @ [''0123456789'' ! (n div 10 mod 10), ''0123456789'' ! (n mod 10)])
             \<and> \<bar>x - q\<bar> \<le> q / 2 ^ 53
             \<and> \<bar>of_nat n / 100 - x\<bar> \<le> 1 / 200))
    \<and> (length sessions = 10 \<and> length (spec_activeDays sessions) = 5 \<longrightarrow>
         avgSessionsPerDay d = JStr ''2.00'')
    \<and> (length sessions = 41 \<and> length (spec_activeDays sessions) = 40 \<longrightarrow>
         avgSessionsPerDay d = JStr ''1.02'')"
proof -
  from assms obtain d where d: "calculateSessionDepth tz sessions = Inr d"
    using calculateSessionDepth_Inr_iff by blast
  let ?a = "length sessions" and ?b = "length (spec_activeDays sessions)"
  let ?x = "jsDivide ?a ?b"
  have x0: "0 \<le> ?x" by (rule jsDivide_nonneg)
  have a: "spec_activeDays sessions = [] \<longrightarrow> avgSessionsPerDay d = JNum 0"
    by (simp add: avg_value[OF d])
  have b: "spec_activeDays sessions \<noteq> [] \<longrightarrow>
         (let q = (of_nat ?a / of_nat ?b :: rat); x = ?x; n = nat \<lfloor>x * 100 + 1 / 2\<rfloor>
          in avgSessionsPerDay d =
               JStr (decimal (n div 100) @ ''.''
                     @ [''0123456789'' ! (n div 10 mod 10), ''0123456789'' ! (n mod 10)])
             \<and> \<bar>x - q\<bar> \<le> q / 2 ^ 53
             \<and> \<bar>of_nat n / 100 - x\<bar> \<le> 1 / 200)"
  proof
    assume ne: "spec_activeDays sessions \<noteq> []"
    then have pa: "0 < ?a" and pb: "0 < ?b" using activeDays_sessions by auto
    have 1: "avgSessionsPerDay d =
               JStr (decimal (nat \<lfloor>?x * 100 + 1 / 2\<rfloor> div 100) @ ''.''
                     @ [''0123456789'' ! (nat \<lfloor>?x * 100 + 1 / 2\<rfloor> div 10 mod 10),
                        ''0123456789'' ! (nat \<lfloor>?x * 100 + 1 / 2\<rfloor> mod 10)])"
      using ne by (simp add: avg_value[OF d] toFixed2_nonneg[OF x0])
    show "let q = (of_nat ?a / of_nat ?b :: rat); x = ?x; n = nat \<lfloor>x * 100 + 1 / 2\<rfloor>
          in avgSessionsPerDay d =
               JStr (decimal (n div 100) @ ''.''
                     @ [''0123456789'' ! (n div 10 mod 10), ''0123456789'' ! (n mod 10)])
             \<and> \<bar>x - q\<bar> \<le> q / 2 ^ 53
             \<and> \<bar>of_nat n / 100 - x\<bar> \<le> 1 / 200"
      unfolding Let_def using 1 jsDivide_error[OF pa pb] round_hundredths[OF x0] by blast
  qed
  have c: "length sessions = 10 \<and> length (spec_activeDays sessions) = 5 \<longrightarrow>
         avgSessionsPerDay d = JStr ''2.00''"
  proof
    assume h: "length sessions = 10 \<and> length (spec_activeDays sessions) = 5"
    then have "spec_activeDays sessions \<noteq> []" by auto
    then have "avgSessionsPerDay d = JStr (toFixed2 (jsDivide ?a ?b))" by (simp add: avg_value[OF d])
    also have "jsDivide ?a ?b = jsDivide 10 5" using h by simp
    finally show "avgSessionsPerDay d = JStr ''2.00''" by (simp only: toFixed2_two)
  qed
  have e: "length sessions = 41 \<and> length (spec_activeDays sessions) = 40 \<longrightarrow>
         avgSessionsPerDay d = JStr ''1.02''"
  proof
    assume h: "length sessions = 41 \<and> length (spec_activeDays sessions) = 40"
    then have "spec_activeDays sessions \<noteq> []" by auto
    then have "avgSessionsPerDay d = JStr (toFixed2 (jsDivide ?a ?b))" by (simp add: avg_value[OF d])
    also have "jsDivide ?a ?b = jsDivide 41 40" using h by simp
    finally show "avgSessionsPerDay d = JStr ''1.02''" by (simp only: toFixed2_below_tie)
  qed
  from d a b c e show ?thesis by blast
qed

theorem avgSessionsPerDay_fixed2_witness:
  "map_sum id avgSessionsPerDay (calculateSessionDepth 0
       [\<lparr>user_id = Some ''a'', duration = Some 400, start_time = TValid 0\<rparr>,
        \<lparr>user_id = Some ''a'', duration = None, start_time = TNull\<rparr>,
        \<lparr>user_id = Some ''b'', duration = Some 3600, start_time = TValid 86400000\<rparr>])
   = Inr (JStr ''1.50'')
   \<and> \<bar>jsDivide 3 2 - 3 / 2\<bar> \<le> (3 / 2) / 2 ^ 53"
proof -
  let ?ex = "[\<lparr>user_id = Some ''a'', duration = Some 400, start_time = TValid 0\<rparr>,
        \<lparr>user_id = Some ''a'', duration = None, start_time = TNull\<rparr>,
        \<lparr>user_id = Some ''b'', duration = Some 3600, start_time = TValid 86400000\<rparr>]"
  have h: "\<forall>s \<in> set ?ex. start_time s \<noteq> TInvalid" by simp
  have ne: "spec_activeDays ?ex \<noteq> []" and len: "length (spec_activeDays ?ex) = 2"
    by (simp_all add: spec_activeDays_def List.map_filter_simps spec_dayOf_def msPerDay_def)
  from avgSessionsPerDay_fixed2[OF h, of 0] obtain d where
    d: "calculateSessionDepth 0 ?ex = Inr d"
    and b: "spec_activeDays ?ex \<noteq> [] \<longrightarrow>
         (let q = (of_nat (length ?ex) / of_nat (length (spec_activeDays ?ex)) :: rat);
              x = jsDivide (length ?ex) (length (spec_activeDays ?ex));
              n = nat \<lfloor>x * 100 + 1 / 2\<rfloor>
          in avgSessionsPerDay d =
               JStr (decimal (n div 100) @ ''.''
                     @ [''0123456789'' ! (n div 10 mod 10), ''0123456789'' ! (n mod 10)])
             \<and> \<bar>x - q\<bar> \<le> q / 2 ^ 53
             \<and> \<bar>of_nat n / 100 - x\<bar> \<le> 1 / 200)"
    by blast
  have l3: "length ?ex = 3" by simp
  from b ne have "\<bar>jsDivide (length ?ex) (length (spec_activeDays ?ex))
           - of_nat (length ?ex) / of_nat (length (spec_activeDays ?ex))\<bar>
         \<le> (of_nat (length ?ex) / of_nat (length (spec_activeDays ?ex))) / 2 ^ 53"
    unfolding Let_def by blast
  then have "\<bar>jsDivide 3 2 - 3 / 2\<bar> \<le> (3 / 2) / 2 ^ 53"
    unfolding l3 len by simp
  moreover have "avgSessionsPerDay d = JStr ''1.50''"
  proof -
    from d have "Inr d = calculateSessionDepth 0 ?ex" by simp
    then show ?thesis unfolding example_depth by auto
  qed
  ultimately show ?thesis using d by simp
qed

theorem avgSessionsPerDay_counterexample:
  "map_sum id avgSessionsPerDay (calculateSessionDepth 0
     [\<lparr>user_id = Some ''a'', duration = Some 60, start_time = TValid 0\<rparr>,
      \<lparr>user_id = Some ''a'', duration = Some 60, start_time = TValid 3600000\<rparr>,
      \<lparr>user_id = Some ''a'', duration = Some 60, start_time = TValid 86400000\<rparr>,
      \<lparr>user_id = Some ''a'', duration = Some 60, start_time = TValid 90000000\<rparr>,
      \<lparr>user_id = Some ''a'', duration = Some 60, start_time = TValid 172800000\<rparr>,
      \<lparr>user_id = Some ''a'', duration = Some 60, start_time = TValid 176400000\<rparr>,
      \<lparr>user_id = Some ''a'', duration = Some 60, start_time = TValid 259200000\<rparr>,
      \<lparr>user_id = Some ''a'', duration = Some 60, start_time = TValid 262800000\<rparr>,
      \<lparr>user_id = Some ''a'', duration = Some 60, start_time = TValid 345600000\<rparr>,
      \<lparr>user_id = Some ''a'', duration = Some 60, start_time = TValid 349200000\<rparr>])
   = Inr (JStr ''2.00'')
   \<and> JStr ''2.00'' \<noteq> JNum 2
   \<and> calculateSessionDepth 0 [\<lparr>user_id = Some ''a'', duration = Some 60, start_time = TInvalid\<rparr>]
       = Inl RangeError"
  by code_simp

subsection \<open>Daily trend\<close>

lemma startOfDay_localMidnight: "t - (t + tz) mod msPerDay = spec_localMidnight tz t"
proof -
  have "(t + tz) div msPerDay * msPerDay = (t + tz) - (t + tz) mod msPerDay"
    by (simp add: minus_mod_eq_div_mult)
  then show ?thesis by (simp add: spec_localMidnight_def)
qed


lemma trendStep_ok:
  "created_at it \<noteq> TInvalid \<Longrightarrow>
   trendStep tz it byDay =
     Inr (case spec_bucketKey tz it of
            None \<Rightarrow> byDay
          | Some k \<Rightarrow> byDay(k \<mapsto> (case byDay k of None \<Rightarrow> 0 | Some c \<Rightarrow> c) + 1))"
  by (cases "created_at it")
     (simp_all add: trendStep_def spec_bucketKey_def startOfDay_def startOfDay_localMidnight)

lemma trendStep_throws:
  "created_at it = TInvalid \<Longrightarrow> trendStep tz it byDay = Inl RangeError"
  by (simp add: trendStep_def startOfDay_def)


lemma foldE_trendStep_throws:
  "\<exists>it \<in> set data. created_at it = TInvalid \<Longrightarrow> foldE (trendStep tz) data byDay = Inl RangeError"
proof (induction data arbitrary: byDay)
  case Nil
  then show ?case by simp
next
  case (Cons it data)
  show ?case
  proof (cases "created_at it = TInvalid")
    case True
    then show ?thesis by (simp add: trendStep_throws)
  next
    case False
    with Cons.prems have "\<exists>it \<in> set data. created_at it = TInvalid" by auto
    from Cons.IH[OF this] show ?thesis by (simp add: trendStep_ok[OF False])
  qed
qed


lemma calculateDailyTrend_throws:
  assumes "\<exists>it \<in> set data. created_at it = TInvalid"
  shows "calculateDailyTrend tz data labels = Inl RangeError"
  unfolding calculateDailyTrend_def foldE_trendStep_throws[OF assms] by simp



subsection \<open>Records with missing fields\<close>
















subsection \<open>The fallback of the assembler\<close>

lemma body_throws:
  assumes "foldE (byDayStep tz) rows (Map.empty, Map.empty) = Inl e
     \<or> calculateDailyTrend tz homework (windowLabels now) = Inl e
     \<or> calculateDailyTrend tz exams (windowLabels now) = Inl e
     \<or> calculateDailyTrend tz notes (windowLabels now) = Inl e
     \<or> calculateDailyTrend tz flashcards (windowLabels now) = Inl e
     \<or> calculateDailyTrend tz pomodoro (windowLabels now) = Inl e
     \<or> calculateSessionDepth tz rows = Inl e"
  shows "\<exists>e'. behaviorMetricsBody tz now rows homework exams notes flashcards pomodoro = Inl e'"
  using assms unfolding behaviorMetricsBody_def Let_def
  by (auto split: sum.splits prod.splits)

lemma getBehaviorMetrics_fallback:
  assumes "foldE (byDayStep tz) rows (Map.empty, Map.empty) = Inl e
     \<or> calculateDailyTrend tz homework (windowLabels now) = Inl e
     \<or> calculateDailyTrend tz exams (windowLabels now) = Inl e
     \<or> calculateDailyTrend tz notes (windowLabels now) = Inl e
     \<or> calculateDailyTrend tz flashcards (windowLabels now) = Inl e
     \<or> calculateDailyTrend tz pomodoro (windowLabels now) = Inl e
     \<or> calculateSessionDepth tz rows = Inl e"
  shows "getBehaviorMetrics tz now rows homework exams notes flashcards pomodoro = defaultMetrics"
  using body_throws[OF assms] unfolding getBehaviorMetrics_def by auto

lemma invalid_row_throws:
  "calculateSessionDepth 0 [\<lparr>user_id = Some ''a'', duration = Some 60, start_time = TInvalid\<rparr>]
     = Inl RangeError"
  by (simp add: calculateSessionDepth_throws)

text \<open>
  Claim C2, as the code has it. If any stage of the aggregation raises, the assembler
  catches the exception and returns one fixed default result: the scalar metrics are 0,
  the three thirty-day arrays are thirty zeros, and the session depth has every
  duration, time-of-day and intensity key with value 0, average 0 and streak 0. The
  feature trends, the engagement tiers and the session-frequency buckets of this result
  are empty objects with no key at all, and the feature usage has empty labels and
  values.
\<close>

theorem getBehaviorMetrics_default_on_exception:
  assumes "foldE (byDayStep tz) rows (Map.empty, Map.empty) = Inl e
     \<or> calculateDailyTrend tz homework (windowLabels now) = Inl e
     \<or> calculateDailyTrend tz exams (windowLabels now) = Inl e
     \<or> calculateDailyTrend tz notes (windowLabels now) = Inl e
     \<or> calculateDailyTrend tz flashcards (windowLabels now) = Inl e
     \<or> calculateDailyTrend tz pomodoro (windowLabels now) = Inl e
     \<or> calculateSessionDepth tz rows = Inl e"
  shows "getBehaviorMetrics tz now rows homework exams notes flashcards pomodoro =
     \<lparr> dau = 0, wau = 0, mau = 0, avgSessionMin = 0,
       sessionStats = \<lparr> stat_avg = 0, stat_min = 0, stat_max = 0, stat_total = 0 \<rparr>,
       retentionD1 = 0,
       active30 = replicate 30 0,
       sessions30 = replicate 30 0,
       avgDuration30 = replicate 30 0,
       featureUsage = \<lparr> usage_labels = [], usage_values = [] \<rparr>,
       featureTrends = [],
       userEngagement = [],
       sessionFrequency = [],
       sessionDepth =
         \<lparr> durationDistribution = [(D0_5, 0), (D5_15, 0), (D15_30, 0), (D30_60, 0), (D60plus, 0)],
           timeOfDayDistribution = [(Night, 0), (Morning, 0), (Afternoon, 0), (Evening, 0)],
           sessionIntensity = [(ShortFrequent, 0), (LongInfrequent, 0), (Balanced, 0), (Shallow, 0)],
           avgSessionsPerDay = JNum 0,
           maxConsecutiveDays = 0 \<rparr> \<rparr>
    \<and> map_of (durationDistribution (sessionDepth
          (getBehaviorMetrics tz now rows homework exams notes flashcards pomodoro))) b = Some 0
    \<and> map_of (timeOfDayDistribution (sessionDepth
          (getBehaviorMetrics tz now rows homework exams notes flashcards pomodoro))) q = Some 0
    \<and> map_of (sessionIntensity (sessionDepth
          (getBehaviorMetrics tz now rows homework exams notes flashcards pomodoro))) c = Some 0
    \<and> map_of (userEngagement
          (getBehaviorMetrics tz now rows homework exams notes flashcards pomodoro)) t = None
    \<and> map_of (sessionFrequency
          (getBehaviorMetrics tz now rows homework exams notes flashcards pomodoro)) f = None
    \<and> map_of (featureTrends
          (getBehaviorMetrics tz now rows homework exams notes flashcards pomodoro)) g = None"
proof -
  have r: "getBehaviorMetrics tz now rows homework exams notes flashcards pomodoro = defaultMetrics"
    by (rule getBehaviorMetrics_fallback[OF assms])
  have "map_of (durationDistribution (sessionDepth defaultMetrics)) b = Some 0"
    by (cases b) (simp_all add: defaultMetrics_def)
  moreover have "map_of (timeOfDayDistribution (sessionDepth defaultMetrics)) q = Some 0"
    by (cases q) (simp_all add: defaultMetrics_def)
  moreover have "map_of (sessionIntensity (sessionDepth defaultMetrics)) c = Some 0"
    by (cases c) (simp_all add: defaultMetrics_def)
  ultimately show ?thesis
    unfolding r by (simp add: defaultMetrics_def)
qed

theorem getBehaviorMetrics_default_on_exception_witness:
  "userEngagement (getBehaviorMetrics 0 0
       [\<lparr>user_id = Some ''a'', duration = Some 60, start_time = TInvalid\<rparr>] [] [] [] [] []) = []
   \<and> map_of (durationDistribution (sessionDepth (getBehaviorMetrics 0 0
       [\<lparr>user_id = Some ''a'', duration = Some 60, start_time = TInvalid\<rparr>] [] [] [] [] [])))
       D60plus = Some 0"
proof -
  have h: "foldE (byDayStep 0) [\<lparr>user_id = Some ''a'', duration = Some 60, start_time = TInvalid\<rparr>]
             (Map.empty, Map.empty) = Inl RangeError
     \<or> calculateDailyTrend 0 [] (windowLabels 0) = Inl RangeError
     \<or> calculateDailyTrend 0 [] (windowLabels 0) = Inl RangeError
     \<or> calculateDailyTrend 0 [] (windowLabels 0) = Inl RangeError
     \<or> calculateDailyTrend 0 [] (windowLabels 0) = Inl RangeError
     \<or> calculateDailyTrend 0 [] (windowLabels 0) = Inl RangeError
     \<or> calculateSessionDepth 0 [\<lparr>user_id = Some ''a'', duration = Some 60, start_time = TInvalid\<rparr>]
          = Inl RangeError"
    using invalid_row_throws by simp
  show ?thesis
    using getBehaviorMetrics_default_on_exception[OF h, of D60plus] by simp
qed

theorem getBehaviorMetrics_default_counterexample:
  "calculateSessionDepth 0 [\<lparr>user_id = Some ''a'', duration = Some 60, start_time = TInvalid\<rparr>]
     = Inl RangeError
   \<and> map_of (userEngagement (getBehaviorMetrics 0 0
        [\<lparr>user_id = Some ''a'', duration = Some 60, start_time = TInvalid\<rparr>] [] [] [] [] [])) High
       = None
   \<and> map_of (sessionFrequency (getBehaviorMetrics 0 0
        [\<lparr>user_id = Some ''a'', duration = Some 60, start_time = TInvalid\<rparr>] [] [] [] [] [])) F1_2
       = None
   \<and> map_of (featureTrends (getBehaviorMetrics 0 0
        [\<lparr>user_id = Some ''a'', duration = Some 60, start_time = TInvalid\<rparr>] [] [] [] [] [])) Homework
       = None"
  by code_simp

end
